theory Spec2Isabelle
  imports Main "HOL-Library.AList"
begin

section \<open>Route nodes: \<^verbatim>\<open>src/library/route-match.ts\<close>\<close>

text \<open>
  JavaScript strings are modelled as \<^typ>\<open>string\<close>.  A dictionary (a plain object
  with string keys) is an association list updated with \<^const>\<open>AList.update\<close>, which
  overwrites an existing key in place and appends a new one, as property assignment and
  object spread do.  A value that may be \<^verbatim>\<open>undefined\<close> is an \<^typ>\<open>'a option\<close>.
\<close>

type_synonym GeneralFragmentDict = "(string \<times> string option) list"
type_synonym GeneralQueryDict = "(string \<times> string option) list"

text \<open>
  A \<^verbatim>\<open>RegExp\<close> object is its \<^verbatim>\<open>global\<close> flag together with what
  \<^verbatim>\<open>exec\<close> returns as \<^verbatim>\<open>groups[0]\<close> on a subject string: \<^term>\<open>None\<close> when
  there is no match, \<^term>\<open>Some m\<close> for the text \<open>m\<close> of the leftmost match.  The
  match need not start at index 0.  A non-global, non-sticky expression keeps no state
  between calls, so \<^verbatim>\<open>exec\<close> is a function.
\<close>

datatype regexp = RegExp (re_global: bool) (re_exec: "string \<Rightarrow> string option")

datatype match_pattern = Str string | Rx regexp

text \<open>
  The two expression literals of the constructor.  \<^verbatim>\<open>/[^/]*/\<close> can match the empty
  string, so its leftmost match starts at index 0 and, being greedy, is the longest run
  of characters other than \<^verbatim>\<open>/\<close>.  \<^verbatim>\<open>/.*/\<close> likewise yields the longest run of
  characters that are not line terminators; of these, line feed and carriage return are
  characters of \<^typ>\<open>string\<close>.
\<close>

definition re_star :: regexp where
  "re_star = RegExp False (\<lambda>s. Some (takeWhile (\<lambda>c. c \<noteq> CHR ''/'') s))"

definition re_star_star :: regexp where
  "re_star_star = RegExp False (\<lambda>s. Some (takeWhile (\<lambda>c. c \<noteq> CHR 0x0A \<and> c \<noteq> CHR 0x0D) s))"

datatype error =
    ExpectingNonGlobal
  | QueryNotAccessible
  | ExpectingRestStartedWithSlash string
  | InvalidRegularExpressionPattern string string

record RouteMatchOptions =
  opt_match :: match_pattern
  opt_query :: "(string \<times> bool) list option"

record RouteMatch =
  rm_name :: string
  rm_matchPattern :: match_pattern
  rm_queryKeys :: "string list option"
  rm_matched :: bool
  rm_fragments :: "GeneralFragmentDict option"
  rm_query :: "GeneralQueryDict option"

text \<open>The constructor (lines 46--66).  Its only \<^verbatim>\<open>throw\<close> is for a global expression.\<close>

definition newRouteMatch :: "string \<Rightarrow> RouteMatchOptions \<Rightarrow> error + RouteMatch" where
  "newRouteMatch name options =
     (let fresh = (\<lambda>p. \<lparr>rm_name = name, rm_matchPattern = p,
                          rm_queryKeys = map_option (map fst) (opt_query options),
                          rm_matched = False, rm_fragments = None, rm_query = None\<rparr>)
      in case opt_match options of
           Rx r \<Rightarrow> if re_global r then Inl ExpectingNonGlobal else Inr (fresh (Rx r))
         | Str m \<Rightarrow>
             if m = ''*'' then Inr (fresh (Rx re_star))
             else if m = ''**'' then Inr (fresh (Rx re_star_star))
             else Inr (fresh (Str m)))"

text \<open>The getter \<^verbatim>\<open>$query\<close> (lines 76--86).\<close>

definition getQuery :: "RouteMatch \<Rightarrow> error + GeneralQueryDict" where
  "getQuery this =
     (case rm_query this of
        None \<Rightarrow> Inl QueryNotAccessible
      | Some q \<Rightarrow> Inr q)"

text \<open>
  Modelled from the spec: \<^verbatim>\<open>isPathPrefix\<close> of \<^verbatim>\<open>./@utils\<close> is imported by
  \<^verbatim>\<open>route-match.ts\<close> but its file is not among the sources.  The specification asks
  that matched text be ``immediately followed by a path separator or end-of-path'' and
  that a literal match ``iff the next path segment equals the pattern exactly''.
\<close>

definition isPathPrefix :: "string \<Rightarrow> string \<Rightarrow> bool" where
  "isPathPrefix path pre =
     (take (length pre) path = pre \<and>
      (case drop (length pre) path of [] \<Rightarrow> True | c # _ \<Rightarrow> c = CHR ''/''))"

record RouteMatchInternalResult =
  res_current :: "string option"
  res_rest :: string

definition unmatched :: RouteMatchInternalResult where
  "unmatched = \<lparr>res_current = None, res_rest = ''''\<rparr>"

text \<open>The private method \<^verbatim>\<open>_match\<close> (lines 184--241).\<close>

definition matchRest :: "RouteMatch \<Rightarrow> bool \<Rightarrow> string \<Rightarrow> error + RouteMatchInternalResult" where
  "matchRest this skipped rest0 =
     (if skipped \<or> rest0 = [] then Inr unmatched
      else if hd rest0 \<noteq> CHR ''/'' then Inl (ExpectingRestStartedWithSlash rest0)
      else
        let rest = tl rest0 in
        case rm_matchPattern this of
          Str pattern \<Rightarrow>
            if isPathPrefix rest pattern
            then Inr \<lparr>res_current = Some pattern, res_rest = drop (length pattern) rest\<rparr>
            else Inr unmatched
        | Rx pattern \<Rightarrow>
            (case re_exec pattern rest of
               Some matched \<Rightarrow>
                 if \<not> isPathPrefix rest matched
                 then Inl (InvalidRegularExpressionPattern matched rest)
                 else Inr \<lparr>res_current = Some matched, res_rest = drop (length matched) rest\<rparr>
             | None \<Rightarrow> Inr unmatched))"

record RouteMatchPushResult =
  push_matched :: bool
  push_rest :: string
  push_fragmentDict :: GeneralFragmentDict
  push_queryDict :: GeneralQueryDict

text \<open>
  Reading \<^verbatim>\<open>dict[key]\<close>: \<^verbatim>\<open>undefined\<close> when the key is absent or holds
  \<^verbatim>\<open>undefined\<close>.
\<close>

definition dictGet :: "(string \<times> 'a option) list \<Rightarrow> string \<Rightarrow> 'a option" where
  "dictGet d k = (case map_of d k of Some v \<Rightarrow> v | None \<Rightarrow> None)"

text \<open>Object spread \<^verbatim>\<open>{...a, ...b}\<close>: the entries of \<open>b\<close> are assigned over \<open>a\<close> in order.\<close>

definition spread :: "(string \<times> 'a) list \<Rightarrow> (string \<times> 'a) list \<Rightarrow> (string \<times> 'a) list" where
  "spread a b = foldl (\<lambda>d (k, v). AList.update k v d) a b"

text \<open>The \<^verbatim>\<open>reduce\<close> over the declared query keys inside \<^verbatim>\<open>_push\<close> (lines 157--168).\<close>

definition pickQuery :: "string list \<Rightarrow> GeneralQueryDict \<Rightarrow> GeneralQueryDict" where
  "pickQuery queryKeys sourceQueryDict =
     foldl (\<lambda>dict key.
              case dictGet sourceQueryDict key of
                Some value \<Rightarrow> AList.update key (Some value) dict
              | None \<Rightarrow> dict)
       [] queryKeys"

text \<open>
  The method \<^verbatim>\<open>_push\<close> (lines 126--182).  It assigns the three observable fields of
  the node; the node so updated is returned beside the result.
\<close>

definition push ::
  "RouteMatch \<Rightarrow> bool \<Rightarrow> string \<Rightarrow> GeneralFragmentDict \<Rightarrow> GeneralQueryDict \<Rightarrow> GeneralQueryDict
     \<Rightarrow> error + (RouteMatchPushResult \<times> RouteMatch)" where
  "push this skipped upperRest upperFragmentDict upperQueryDict sourceQueryDict =
     (case matchRest this skipped upperRest of
        Inl e \<Rightarrow> Inl e
      | Inr r \<Rightarrow>
          let matched = (res_current r \<noteq> None);
              fragmentDict =
                AList.update (rm_name this)
                  (if matched then res_current r
                   else case rm_matchPattern this of Str p \<Rightarrow> Some p | Rx _ \<Rightarrow> None)
                  upperFragmentDict;
              queryDict =
                spread upperQueryDict
                  (case rm_queryKeys this of
                     Some queryKeys \<Rightarrow> if matched then pickQuery queryKeys sourceQueryDict else []
                   | None \<Rightarrow> [])
          in Inr (\<lparr>push_matched = matched, push_rest = res_rest r,
                    push_fragmentDict = fragmentDict, push_queryDict = queryDict\<rparr>,
                  this\<lparr>rm_fragments := Some fragmentDict, rm_query := Some queryDict,
                       rm_matched := matched\<rparr>))"

section \<open>The router: \<^verbatim>\<open>core/src/library/router.ts\<close>\<close>

subsection \<open>Locations, schemas and the route tree\<close>

text \<open>
  A location is an object; \<^verbatim>\<open>_isNextLocationOutDated\<close> compares two of them with
  \<^verbatim>\<open>!==\<close>, by reference.  The field \<open>loc_key\<close> stands for the identity of the
  object, so that two references are the same exactly when the records are equal.
\<close>

record Location =
  loc_key :: nat
  pathname :: string
  search :: string

text \<open>
  An entry of a schema dictionary is a boolean or an object.  \<open>s_group\<close> is
  \<^term>\<open>None\<close> when the key \<^verbatim>\<open>$group\<close> is absent (the test is \<^verbatim>\<open>'$group' in schema\<close>)
  and \<^term>\<open>Some None\<close> when it is present and \<^verbatim>\<open>undefined\<close>.  The dictionary is the
  list \<^verbatim>\<open>Object.entries\<close> returns.
\<close>

datatype RouteSchema =
    SchemaBool bool
  | Schema (s_match: "match_pattern option") (s_query: "(string \<times> bool) list option")
      (s_exact: "bool option") (s_group: "string option option")
      (s_children: "(string \<times> RouteSchema) list option")

text \<open>
  A node of the built tree: the options \<^verbatim>\<open>_build\<close> hands to the node's constructor
  (\<^verbatim>\<open>match\<close>, \<^verbatim>\<open>query\<close>, \<^verbatim>\<open>exact\<close>, \<^verbatim>\<open>group\<close>) and its children.  The
  class of these objects, \<^verbatim>\<open>RouteMatch\<close> of the core package, is not among the
  sources.  Objects are compared by reference (they are keys of a \<^verbatim>\<open>Map\<close> and
  members of a \<^verbatim>\<open>Set\<close>); \<open>node_path\<close>, the schema keys from the root down to the
  node, tells two nodes of one tree apart.  A node without \<^verbatim>\<open>$children\<close> has the
  empty list: the router reads \<^verbatim>\<open>target._children || []\<close>.
\<close>

datatype RouteNode = RouteNode (node_path: "string list") (node_match: match_pattern)
  (node_query: "(string \<times> bool) list option") (node_exact: bool)
  (node_group: "string option") (node_children: "RouteNode list")

text \<open>
  \<^verbatim>\<open>_build\<close> (lines 501--591).  \<open>parentGroup\<close> is \<^verbatim>\<open>parent.$group\<close>, which is
  \<^verbatim>\<open>undefined\<close> for the router itself; \<open>parentPath\<close> is the path of the parent.  The
  extension object and the twin \<^verbatim>\<open>NextRouteMatch\<close> carry no information of their own
  and are left out.  What the constructor of a node may throw is not visible in the
  sources; the function builds the tree of a schema whose nodes can all be constructed.
\<close>

fun build :: "(string \<Rightarrow> string) \<Rightarrow> string option \<Rightarrow> string list
    \<Rightarrow> (string \<times> RouteSchema) list \<Rightarrow> RouteNode list" where
  "build segmentMatcher parentGroup parentPath [] = []"
| "build segmentMatcher parentGroup parentPath ((key, SchemaBool b) # rest) =
     RouteNode (parentPath @ [key]) (Str (segmentMatcher key)) None False parentGroup []
       # build segmentMatcher parentGroup parentPath rest"
| "build segmentMatcher parentGroup parentPath ((key, Schema m q e g cs) # rest) =
     (let group = (case g of Some g' \<Rightarrow> g' | None \<Rightarrow> parentGroup);
          match = (case m of Some m' \<Rightarrow> m' | None \<Rightarrow> Str (segmentMatcher key));
          exact = (case e of Some e' \<Rightarrow> e' | None \<Rightarrow> False);
          path = parentPath @ [key]
      in RouteNode path match q exact group
           (case cs of None \<Rightarrow> [] | Some children \<Rightarrow> build segmentMatcher group path children)
         # build segmentMatcher parentGroup parentPath rest)"

text \<open>
  The group set filled by the top-level call of \<^verbatim>\<open>_build\<close> (lines 536--538): the
  non-empty groups of the top-level nodes, in order of first appearance.  Nested calls
  receive no set.
\<close>

definition buildGroups :: "RouteNode list \<Rightarrow> string list" where
  "buildGroups nodes =
     foldl (\<lambda>groupSet node.
              case node_group node of
                Some name \<Rightarrow>
                  if name \<noteq> [] \<and> name \<notin> set groupSet then groupSet @ [name] else groupSet
              | None \<Rightarrow> groupSet)
       [] nodes"

subsection \<open>Matching a path against the tree\<close>

text \<open>What \<^verbatim>\<open>routeMatch._match(upperRest)\<close> returns.\<close>

record NodeMatchResult =
  nm_matched :: bool
  nm_exactlyMatched :: bool
  nm_segment :: "string option"
  nm_rest :: string

record RouteMatchEntry =
  entry_match :: RouteNode
  entry_segment :: "string option"
  entry_exact :: bool

text \<open>
  \<^verbatim>\<open>Router._match\<close> (lines 458--498 of the core router and, word for word, lines
  267--307 of \<^verbatim>\<open>src/library/router.ts\<close>).  The loop over \<^verbatim>\<open>target._children\<close> is
  the recursion over the list of siblings; \<^verbatim>\<open>continue\<close> is the call on the remaining
  siblings.  The node's own \<^verbatim>\<open>_match\<close> is the parameter \<open>nodeMatch\<close>.
\<close>

fun routerMatch :: "(RouteNode \<Rightarrow> string \<Rightarrow> NodeMatchResult) \<Rightarrow> RouteNode list \<Rightarrow> string
    \<Rightarrow> RouteMatchEntry list option" where
  "routerMatch nodeMatch [] upperRest = None"
| "routerMatch nodeMatch (RouteNode p m q e g cs # siblings) upperRest =
     (let routeMatch = RouteNode p m q e g cs;
          r = nodeMatch routeMatch upperRest
      in if \<not> nm_matched r then routerMatch nodeMatch siblings upperRest
         else if nm_exactlyMatched r
         then Some [\<lparr>entry_match = routeMatch, entry_segment = nm_segment r, entry_exact = True\<rparr>]
         else case routerMatch nodeMatch cs (nm_rest r) of
                None \<Rightarrow> routerMatch nodeMatch siblings upperRest
              | Some result \<Rightarrow>
                  Some (\<lparr>entry_match = routeMatch, entry_segment = nm_segment r,
                          entry_exact = False\<rparr> # result))"

definition noMatch :: NodeMatchResult where
  "noMatch = \<lparr>nm_matched = False, nm_exactlyMatched = False, nm_segment = None, nm_rest = ''''\<rparr>"

text \<open>
  Modelled from the spec: the segment a match pattern takes from the front of a path, by
  section 4.2 of the specification.  A literal pattern matches iff the next segment
  equals it; \<^verbatim>\<open>"*"\<close> takes exactly one non-empty segment without a separator;
  \<^verbatim>\<open>"**"\<close> takes the whole remainder of the path; an expression takes the text
  \<^verbatim>\<open>exec\<close> returns, which must start the path and be followed by a separator or the end
  of the path, and is a fatal configuration error otherwise, not a failure to match.
\<close>

definition matchSegment :: "match_pattern \<Rightarrow> string \<Rightarrow> error + string option" where
  "matchSegment matchPattern path =
     (case matchPattern of
        Str pattern \<Rightarrow>
          if pattern = ''*'' then
            (let segment = takeWhile (\<lambda>c. c \<noteq> CHR ''/'') path
             in Inr (if segment = [] then None else Some segment))
          else if pattern = ''**'' then Inr (Some path)
          else Inr (if isPathPrefix path pattern then Some pattern else None)
      | Rx pattern \<Rightarrow>
          (case re_exec pattern path of
             None \<Rightarrow> Inr None
           | Some matched \<Rightarrow>
               if isPathPrefix path matched then Inr (Some matched)
               else Inl (InvalidRegularExpressionPattern matched path)))"

text \<open>
  Modelled from the spec: the method \<^verbatim>\<open>_match(upperRest)\<close> of the core
  \<^verbatim>\<open>RouteMatch\<close>, which the router calls on every node, is not among the sources.
  Following section 4.2 of the specification: the path must continue with a separator,
  the pattern takes its segment as \<^const>\<open>matchSegment\<close> says, and the match is exact
  when nothing of the path remains, which ends the chain at a node that is declared
  \<^verbatim>\<open>$exact\<close> or has no children.  A node with children that is not declared exact does
  not match its own path.  The result of \<^verbatim>\<open>_match\<close> that \<^const>\<open>routerMatch\<close> reads has
  no place for the configuration error of \<^const>\<open>matchSegment\<close>: such a node gives no
  match here, and the statements below use this function only on nodes whose pattern
  never raises it.
\<close>

definition matchNode :: "RouteNode \<Rightarrow> string \<Rightarrow> NodeMatchResult" where
  "matchNode node upperRest =
     (case upperRest of
        [] \<Rightarrow> noMatch
      | c # path \<Rightarrow>
          if c \<noteq> CHR ''/'' then noMatch
          else
            case matchSegment (node_match node) path of
              Inl e \<Rightarrow> noMatch
            | Inr None \<Rightarrow> noMatch
            | Inr (Some segment) \<Rightarrow>
                let rest = drop (length segment) path
                in if rest \<noteq> [] then
                     \<lparr>nm_matched = True, nm_exactlyMatched = False, nm_segment = Some segment,
                      nm_rest = rest\<rparr>
                   else if node_exact node \<or> node_children node = [] then
                     \<lparr>nm_matched = True, nm_exactlyMatched = True, nm_segment = Some segment,
                      nm_rest = rest\<rparr>
                   else noMatch)"

subsection \<open>Sources, effects and the fields of the router\<close>

text \<open>
  A \<^verbatim>\<open>Map\<close> keeps its keys in insertion order and \<^verbatim>\<open>set\<close> overwrites in place:
  it is an association list updated with \<^const>\<open>AList.update\<close>.  A \<^verbatim>\<open>Set\<close> is the
  list of its members in insertion order; \<^verbatim>\<open>delete\<close> is \<^const>\<open>removeAll\<close>.
\<close>

record RouteSource =
  matchToMatchEntryMap :: "(RouteNode \<times> RouteMatchEntry) list"
  queryDict :: GeneralQueryDict
  pathDict :: "(string \<times> string) list"

datatype HookKind = BeforeLeave | BeforeEnter | BeforeUpdate | AfterLeave | AfterEnter | AfterUpdate

text \<open>
  What awaiting a hook of a node brings: the promise resolves to a truthy or falsy
  result, or rejects.  While the router is suspended the history provider may announce
  further locations; each such announcement is a call of \<^verbatim>\<open>_onLocationChange\<close>, and
  the outcome lists them in order.
\<close>

datatype HookOutcome = Resolved bool "Location list" | Rejected "Location list"

fun arrivals :: "HookOutcome \<Rightarrow> Location list" where
  "arrivals (Resolved result ls) = ls"
| "arrivals (Rejected ls) = ls"

text \<open>
  What the router does to its collaborators, in order: the hooks it awaits (with their
  outcome), \<^verbatim>\<open>match._update(matched, exact)\<close> on a node, \<^verbatim>\<open>history.replace\<close>, and
  the two callbacks of the options.
\<close>

datatype Effect =
    Hook HookKind RouteNode HookOutcome
  | Update RouteNode bool bool
  | HistoryReplace Location
  | OnLeave string
  | OnChange "Location option" Location

text \<open>
  The fields of the router.  \<open>rt_onLeave\<close> and \<open>rt_onChange\<close> say whether the callback
  is configured; \<open>rt_changing\<close> is the promise chain \<^verbatim>\<open>_changing\<close>, the locations whose
  processing is still to come; \<open>rt_effects\<close> is the log of effects so far.
\<close>

record Router =
  rt_default :: Location
  rt_prefix :: string
  rt_onLeave :: bool
  rt_onChange :: bool
  rt_location :: "Location option"
  rt_nextLocation :: "Location option"
  rt_source :: RouteSource
  rt_matchingSource :: RouteSource
  rt_changing :: "Location list"
  rt_children :: "RouteNode list"
  rt_groups :: "string list"
  rt_effects :: "Effect list"

text \<open>The whitelist \<^verbatim>\<open>_parallel\<close> of a node; both of its fields are optional.\<close>

record ParallelOptions =
  par_groups :: "string list option"
  par_matches :: "RouteNode list option"

text \<open>
  What the router reads from outside \<^verbatim>\<open>router.ts\<close>: the node's own \<^verbatim>\<open>_match\<close>,
  the node's field \<^verbatim>\<open>_parallel\<close>, the pairs \<^verbatim>\<open>new URLSearchParams(search)\<close> iterates
  over, and the outcome of awaiting a hook of a node in a given state of the router.
\<close>

record Env =
  env_match :: "RouteNode \<Rightarrow> string \<Rightarrow> NodeMatchResult"
  env_parallel :: "RouteNode \<Rightarrow> ParallelOptions option"
  env_searchParams :: "string \<Rightarrow> (string \<times> string) list"
  env_hook :: "HookKind \<Rightarrow> RouteNode \<Rightarrow> Router \<Rightarrow> HookOutcome"

record RouterOptions =
  ropt_segmentMatcher :: "(string \<Rightarrow> string) option"
  ropt_default :: "Location option"
  ropt_prefix :: "string option"
  ropt_onLeave :: bool
  ropt_onChange :: bool

text \<open>
  The constructor (lines 177--204), up to the deferred subscription to the history.
  \<open>hyphenate\<close> is the default segment matcher, \<open>root\<close> the location \<^verbatim>\<open>parsePath('/')\<close>;
  a default path of the options is given parsed.
\<close>

definition newRouter ::
  "(string \<Rightarrow> string) \<Rightarrow> Location \<Rightarrow> (string \<times> RouteSchema) list \<Rightarrow> RouterOptions \<Rightarrow> Router" where
  "newRouter hyphenate root schema options =
     (let segmentMatcher = (case ropt_segmentMatcher options of Some f \<Rightarrow> f | None \<Rightarrow> hyphenate);
          children = build segmentMatcher None [] schema;
          empty = \<lparr>matchToMatchEntryMap = [], queryDict = [], pathDict = []\<rparr>
      in \<lparr>rt_default = (case ropt_default options of Some l \<Rightarrow> l | None \<Rightarrow> root),
          rt_prefix = (case ropt_prefix options of Some p \<Rightarrow> p | None \<Rightarrow> ''''),
          rt_onLeave = ropt_onLeave options,
          rt_onChange = ropt_onChange options,
          rt_location = None,
          rt_nextLocation = None,
          rt_source = empty,
          rt_matchingSource = empty,
          rt_changing = [],
          rt_children = children,
          rt_groups = buildGroups children,
          rt_effects = []\<rparr>)"

subsection \<open>Helpers that are not among the sources\<close>

text \<open>
  Modelled from the spec: \<^verbatim>\<open>isLocationEqual\<close> and \<^verbatim>\<open>testPathPrefix\<close> of the core
  \<^verbatim>\<open>./@utils\<close> are imported by the router but their file is not among the sources.
  A location is ``compared structurally'' on its path and query, and a path passes the
  prefix filter unless it ``does not start with it''.
\<close>

definition isLocationEqual :: "Location \<Rightarrow> Location \<Rightarrow> bool" where
  "isLocationEqual a b = (pathname a = pathname b \<and> search a = search b)"

definition testPathPrefix :: "string \<Rightarrow> string \<Rightarrow> bool" where
  "testPathPrefix path pre = (take (length pre) path = pre)"

text \<open>
  Modelled from the spec: the getters \<^verbatim>\<open>$exact\<close> and \<^verbatim>\<open>_pathSegments\<close> of a node and
  of its twin \<^verbatim>\<open>_next\<close>, and \<^verbatim>\<open>isShallowlyEqual\<close>, are not among the sources.  A
  node reads them from the committed source and its twin from the speculative one.
  \<^verbatim>\<open>$exact\<close> is the exact flag of the node's entry, false without an entry;
  \<^verbatim>\<open>_pathSegments\<close> holds the ``path fragments captured by this node and ancestors'',
  keyed by node name; two dictionaries are shallowly equal when they have the same keys
  with the same values.
\<close>

definition exactOf :: "RouteSource \<Rightarrow> RouteNode \<Rightarrow> bool" where
  "exactOf source node =
     (case map_of (matchToMatchEntryMap source) node of
        Some entry \<Rightarrow> entry_exact entry
      | None \<Rightarrow> False)"

definition segmentOf :: "RouteSource \<Rightarrow> string list \<Rightarrow> string option" where
  "segmentOf source path =
     (case find (\<lambda>(node, entry). node_path node = path) (matchToMatchEntryMap source) of
        Some (node, entry) \<Rightarrow> entry_segment entry
      | None \<Rightarrow> None)"

fun segmentsBelow :: "RouteSource \<Rightarrow> string list \<Rightarrow> string list \<Rightarrow> GeneralFragmentDict
    \<Rightarrow> GeneralFragmentDict" where
  "segmentsBelow source upper [] dict = dict"
| "segmentsBelow source upper (name # names) dict =
     segmentsBelow source (upper @ [name]) names
       (AList.update name (segmentOf source (upper @ [name])) dict)"

definition pathSegments :: "RouteSource \<Rightarrow> RouteNode \<Rightarrow> GeneralFragmentDict" where
  "pathSegments source node = segmentsBelow source [] (node_path node) []"

definition isShallowlyEqual :: "GeneralFragmentDict \<Rightarrow> GeneralFragmentDict \<Rightarrow> bool" where
  "isShallowlyEqual a b =
     (length a = length b \<and> list_all (\<lambda>(key, value). map_of b key = Some value) a)"

subsection \<open>Processing a location\<close>

text \<open>\<^verbatim>\<open>_isNextLocationOutDated\<close> (lines 448--450) and \<^verbatim>\<open>_revert\<close> (lines 453--455).\<close>

definition isNextLocationOutDated :: "Router \<Rightarrow> Location \<Rightarrow> bool" where
  "isNextLocationOutDated this location = (Some location \<noteq> rt_nextLocation this)"

definition revert :: "Router \<Rightarrow> Router" where
  "revert this =
     this\<lparr>rt_effects := rt_effects this @
       [HistoryReplace (case rt_location this of Some location \<Rightarrow> location | None \<Rightarrow> rt_default this)]\<rparr>"

text \<open>
  \<^verbatim>\<open>_onLocationChange\<close> (lines 207--213): the location becomes the latest one requested
  and its processing is chained after what is already pending.
\<close>

definition onLocationChange :: "Router \<Rightarrow> Location \<Rightarrow> Router" where
  "onLocationChange this location =
     this\<lparr>rt_nextLocation := Some location, rt_changing := rt_changing this @ [location]\<rparr>"

text \<open>
  An \<^verbatim>\<open>await\<close> of a hook: the call is logged with its outcome, and the locations
  announced during the suspension have gone through \<^verbatim>\<open>_onLocationChange\<close> when the
  router resumes.
\<close>

definition awaitHook :: "Env \<Rightarrow> HookKind \<Rightarrow> RouteNode \<Rightarrow> Router \<Rightarrow> HookOutcome \<times> Router" where
  "awaitHook env kind node this =
     (let outcome = env_hook env kind node this
      in (outcome,
          foldl onLocationChange
            (this\<lparr>rt_effects := rt_effects this @ [Hook kind node outcome]\<rparr>)
            (arrivals outcome)))"

text \<open>The \<^verbatim>\<open>reduce\<close> of lines 233--239.\<close>

definition parseQuery :: "(string \<times> string) list \<Rightarrow> GeneralQueryDict" where
  "parseQuery searchParams =
     foldl (\<lambda>dict (key, value). AList.update key (Some value) dict) [] searchParams"

text \<open>
  One round of the loop over \<^verbatim>\<open>this._groups\<close> (lines 267--282), on the triple of
  \<^verbatim>\<open>pathInfos\<close>, \<^verbatim>\<open>pathDict\<close> and \<^verbatim>\<open>queryDict\<close>.
\<close>

definition extractGroupPath ::
  "(string \<times> string option) list \<times> (string \<times> string) list \<times> GeneralQueryDict \<Rightarrow> string
     \<Rightarrow> (string \<times> string option) list \<times> (string \<times> string) list \<times> GeneralQueryDict" where
  "extractGroupPath acc name =
     (case acc of (pathInfos, paths, query) \<Rightarrow>
        let key = CHR ''_'' # name
        in if map_of query key = None then acc
           else
             case dictGet query key of
               Some path \<Rightarrow>
                 if path \<noteq> []
                 then (pathInfos @ [(path, Some name)], AList.update name path paths,
                       AList.delete key query)
                 else (pathInfos, paths, AList.delete key query)
             | None \<Rightarrow> (pathInfos, paths, AList.delete key query))"

text \<open>
  One round of the loop over \<^verbatim>\<open>pathInfos\<close> (lines 290--304).  The pattern
  \<^verbatim>\<open>[{match}]\<close> binds the \<^emph>\<open>first\<close> entry of the chain, the top-level node.
\<close>

definition matchGroup ::
  "Env \<Rightarrow> RouteNode list \<Rightarrow> (string option \<times> RouteMatchEntry list) list \<Rightarrow> string \<times> string option
     \<Rightarrow> (string option \<times> RouteMatchEntry list) list" where
  "matchGroup env children groupToMatchEntriesMap info =
     (case info of (path, slot) \<Rightarrow>
        case routerMatch (env_match env) children path of
          None \<Rightarrow> groupToMatchEntriesMap
        | Some [] \<Rightarrow> groupToMatchEntriesMap
        | Some (first # others) \<Rightarrow>
            if node_group (entry_match first) \<noteq> slot then groupToMatchEntriesMap
            else AList.update slot (first # others) groupToMatchEntriesMap)"

text \<open>
  The loop over the whitelist (lines 321--327).  Reading \<^verbatim>\<open>[{match}]\<close> from an empty
  chain would throw a \<^verbatim>\<open>TypeError\<close>: the result is \<^term>\<open>None\<close> then.
\<close>

fun whitelisted :: "string list \<Rightarrow> RouteNode list \<Rightarrow> (string option \<times> RouteMatchEntry list) list
    \<Rightarrow> RouteMatchEntry list \<Rightarrow> RouteMatchEntry list option" where
  "whitelisted groups matches [] matchEntries = Some matchEntries"
| "whitelisted groups matches ((slot, []) # rest) matchEntries = None"
| "whitelisted groups matches ((slot, first # others) # rest) matchEntries =
     (if slot = None \<or> slot = Some [] \<or> (case slot of Some name \<Rightarrow> name \<in> set groups | None \<Rightarrow> False)
         \<or> entry_match first \<in> set matches
      then whitelisted groups matches rest (matchEntries @ first # others)
      else whitelisted groups matches rest matchEntries)"

text \<open>Lines 307--335: the entries kept for the next state, and the map made of them.\<close>

definition keptEntries ::
  "Env \<Rightarrow> (string option \<times> RouteMatchEntry list) list \<Rightarrow> RouteMatchEntry list option" where
  "keptEntries env groupToMatchEntriesMap =
     (case map_of groupToMatchEntriesMap None of
        None \<Rightarrow> Some []
      | Some [] \<Rightarrow> None
      | Some (primary # others) \<Rightarrow>
          (case env_parallel env (entry_match primary) of
             Some whitelist \<Rightarrow>
               whitelisted
                 (case par_groups whitelist of Some groups \<Rightarrow> groups | None \<Rightarrow> [])
                 (case par_matches whitelist of Some matches \<Rightarrow> matches | None \<Rightarrow> [])
                 groupToMatchEntriesMap []
           | None \<Rightarrow> Some (concat (map snd groupToMatchEntriesMap))))"

definition toEntryMap :: "RouteMatchEntry list \<Rightarrow> (RouteNode \<times> RouteMatchEntry) list" where
  "toEntryMap matchEntries =
     foldl (\<lambda>entries entry. AList.update (entry_match entry) entry entries) [] matchEntries"

definition pathWithoutPrefix :: "Router \<Rightarrow> Location \<Rightarrow> string" where
  "pathWithoutPrefix this nextLocation =
     (let path = drop (length (rt_prefix this)) (pathname nextLocation)
      in if path = [] then ''/'' else path)"

definition groupToMatchEntries ::
  "Env \<Rightarrow> Router \<Rightarrow> (string \<times> string option) list \<Rightarrow> (string option \<times> RouteMatchEntry list) list" where
  "groupToMatchEntries env this pathInfos = foldl (matchGroup env (rt_children this)) [] pathInfos"

text \<open>
  Lines 231--335 without the prefix test: the paths to match (lines 241--282), and the
  source computed for a location, or \<^term>\<open>None\<close> for the \<^verbatim>\<open>TypeError\<close> above.
\<close>

definition extractGroupPaths ::
  "Env \<Rightarrow> Router \<Rightarrow> Location
     \<Rightarrow> (string \<times> string option) list \<times> (string \<times> string) list \<times> GeneralQueryDict" where
  "extractGroupPaths env this nextLocation =
     (let primary = pathWithoutPrefix this nextLocation
      in foldl extractGroupPath
           ([(primary, None)], [(''_'', primary)],
            parseQuery (env_searchParams env (search nextLocation)))
           (rt_groups this))"

definition matchLocation :: "Env \<Rightarrow> Router \<Rightarrow> Location \<Rightarrow> RouteSource option" where
  "matchLocation env this nextLocation =
     (case extractGroupPaths env this nextLocation of
        (pathInfos, paths, query) \<Rightarrow>
          (case keptEntries env (groupToMatchEntries env this pathInfos) of
             None \<Rightarrow> None
           | Some matchEntries \<Rightarrow>
               Some \<lparr>matchToMatchEntryMap = toEntryMap matchEntries, queryDict = query,
                     pathDict = paths\<rparr>))"

text \<open>The two sets of lines 352--375.\<close>

definition leavingMatches :: "RouteNode list \<Rightarrow> RouteNode list \<Rightarrow> RouteNode list" where
  "leavingMatches previousMatchSet nextMatchSet =
     foldl (\<lambda>leavingMatchSet node. removeAll node leavingMatchSet) previousMatchSet nextMatchSet"

text \<open>One round of the loop of lines 362--375, on the set it prunes.\<close>

definition dropUnchanged ::
  "RouteSource \<Rightarrow> RouteSource \<Rightarrow> RouteNode list \<Rightarrow> RouteNode \<Rightarrow> RouteNode list" where
  "dropUnchanged source matchingSource matchSet node =
     (if node \<notin> set matchSet then matchSet
      else if isShallowlyEqual (pathSegments source node) (pathSegments matchingSource node)
              \<and> exactOf source node = exactOf matchingSource node
      then removeAll node matchSet
      else matchSet)"

definition enteringAndUpdatingMatches ::
  "RouteSource \<Rightarrow> RouteSource \<Rightarrow> RouteNode list \<Rightarrow> RouteNode list \<Rightarrow> RouteNode list" where
  "enteringAndUpdatingMatches source matchingSource previousMatchSet nextMatchSet =
     foldl (dropUnchanged source matchingSource) nextMatchSet previousMatchSet"

text \<open>
  How the processing of a location ends, one value for each way out of
  \<^verbatim>\<open>_asyncOnLocationChange\<close>: \<open>Superseded\<close> is the return of lines 219--221,
  \<open>Unchanged\<close> that of lines 227--229, \<open>LeftPrefix\<close> that of lines 246--254,
  \<open>Abandoned\<close> the returns of lines 382--384 and 399--401, \<open>Reverted\<close> those of lines
  386--389 and 403--406, \<open>Changed\<close> the end of the function, and \<open>Failed\<close> a rejection
  of its promise (caught and logged by \<^verbatim>\<open>_onLocationChange\<close>).
\<close>

datatype Completion = Superseded | Unchanged | LeftPrefix | Abandoned | Reverted | Changed | Failed

text \<open>
  The two loops over the before hooks (lines 379--407) differ only in the hook they
  await: each takes the list of its calls.  \<^term>\<open>None\<close> means that the loop ran to its
  end.
\<close>

fun beforeHooks :: "Env \<Rightarrow> Location \<Rightarrow> (HookKind \<times> RouteNode) list \<Rightarrow> Router
    \<Rightarrow> Completion option \<times> Router" where
  "beforeHooks env nextLocation [] this = (None, this)"
| "beforeHooks env nextLocation ((kind, node) # calls) this =
     (case awaitHook env kind node this of
        (Rejected ls, this') \<Rightarrow> (Some Failed, this')
      | (Resolved result ls, this') \<Rightarrow>
          if isNextLocationOutDated this' nextLocation then (Some Abandoned, this')
          else if \<not> result then (Some Reverted, revert this')
          else beforeHooks env nextLocation calls this')"

text \<open>The loops over the after hooks (lines 428--440): the result is not looked at.\<close>

fun afterHooks :: "Env \<Rightarrow> (HookKind \<times> RouteNode) list \<Rightarrow> Router \<Rightarrow> Completion option \<times> Router" where
  "afterHooks env [] this = (None, this)"
| "afterHooks env ((kind, node) # calls) this =
     (case awaitHook env kind node this of
        (Rejected ls, this') \<Rightarrow> (Some Failed, this')
      | (Resolved result ls, this') \<Rightarrow> afterHooks env calls this')"

text \<open>
  The locals of lines 347--375, as functions of the router at line 345 (which already
  holds the new speculative source) and of the local \<^verbatim>\<open>matchToMatchEntryMap\<close>,
  here \<open>nextMap\<close>.
\<close>

definition previousMatchSet :: "Router \<Rightarrow> RouteNode list" where
  "previousMatchSet this = map fst (matchToMatchEntryMap (rt_source this))"

definition reversedLeavingMatches ::
  "Router \<Rightarrow> (RouteNode \<times> RouteMatchEntry) list \<Rightarrow> RouteNode list" where
  "reversedLeavingMatches this nextMap =
     rev (leavingMatches (previousMatchSet this) (map fst nextMap))"

definition enteringAndUpdatingMatchSet ::
  "Router \<Rightarrow> (RouteNode \<times> RouteMatchEntry) list \<Rightarrow> RouteNode list" where
  "enteringAndUpdatingMatchSet this nextMap =
     enteringAndUpdatingMatches (rt_source this) (rt_matchingSource this) (previousMatchSet this)
       (map fst nextMap)"

text \<open>The hooks awaited by the loops of lines 379--390, 392--407 and 428--440.\<close>

definition leaveCalls ::
  "Router \<Rightarrow> (RouteNode \<times> RouteMatchEntry) list \<Rightarrow> (HookKind \<times> RouteNode) list" where
  "leaveCalls this nextMap = map (Pair BeforeLeave) (reversedLeavingMatches this nextMap)"

definition enterCalls ::
  "Router \<Rightarrow> (RouteNode \<times> RouteMatchEntry) list \<Rightarrow> (HookKind \<times> RouteNode) list" where
  "enterCalls this nextMap =
     map (\<lambda>node. (if node \<in> set (previousMatchSet this) then BeforeUpdate else BeforeEnter, node))
       (enteringAndUpdatingMatchSet this nextMap)"

definition afterCalls ::
  "Router \<Rightarrow> (RouteNode \<times> RouteMatchEntry) list \<Rightarrow> (HookKind \<times> RouteNode) list" where
  "afterCalls this nextMap =
     map (Pair AfterLeave) (reversedLeavingMatches this nextMap)
     @ map (\<lambda>node. (if node \<in> set (previousMatchSet this) then AfterUpdate else AfterEnter, node))
         (enteringAndUpdatingMatchSet this nextMap)"

text \<open>
  Lines 409--424: the commit and the updates of the nodes.  \<open>this\<close> is the router at
  line 345 and \<open>this2\<close> the router after the before hooks.
\<close>

definition updates :: "Router \<Rightarrow> (RouteNode \<times> RouteMatchEntry) list \<Rightarrow> Effect list" where
  "updates this nextMap =
     map (\<lambda>node. Update node False False) (reversedLeavingMatches this nextMap)
     @ map (\<lambda>(node, entry). Update node True (entry_exact entry)) nextMap"

definition commit ::
  "Router \<Rightarrow> Router \<Rightarrow> Location \<Rightarrow> (RouteNode \<times> RouteMatchEntry) list \<Rightarrow> Router" where
  "commit this this2 nextLocation nextMap =
     this2\<lparr>rt_location := Some nextLocation, rt_source := rt_matchingSource this2,
           rt_effects := rt_effects this2 @ updates this nextMap\<rparr>"

text \<open>
  Lines 345--445.  \<open>location\<close> is the committed location read at line 225.
\<close>

definition changeRoutes ::
  "Env \<Rightarrow> Router \<Rightarrow> Location \<Rightarrow> Location option \<Rightarrow> (RouteNode \<times> RouteMatchEntry) list
     \<Rightarrow> Completion \<times> Router" where
  "changeRoutes env this nextLocation location nextMap =
     (case beforeHooks env nextLocation (leaveCalls this nextMap) this of
        (Some completion, this1) \<Rightarrow> (completion, this1)
      | (None, this1) \<Rightarrow>
          (case beforeHooks env nextLocation (enterCalls this nextMap) this1 of
             (Some completion, this2) \<Rightarrow> (completion, this2)
           | (None, this2) \<Rightarrow>
               (case afterHooks env (afterCalls this nextMap)
                       (commit this this2 nextLocation nextMap) of
                  (Some completion, this4) \<Rightarrow> (completion, this4)
                | (None, this4) \<Rightarrow>
                    (Changed,
                     if rt_onChange this4
                     then this4\<lparr>rt_effects := rt_effects this4 @ [OnChange location nextLocation]\<rparr>
                     else this4))))"

text \<open>\<^verbatim>\<open>_asyncOnLocationChange\<close> (lines 216--445).\<close>

definition asyncOnLocationChange :: "Env \<Rightarrow> Router \<Rightarrow> Location \<Rightarrow> Completion \<times> Router" where
  "asyncOnLocationChange env this nextLocation =
     (if isNextLocationOutDated this nextLocation then (Superseded, this)
      else if (case rt_location this of
                 Some location \<Rightarrow> isLocationEqual location nextLocation
               | None \<Rightarrow> False)
      then (Unchanged, this)
      else if \<not> testPathPrefix (pathname nextLocation) (rt_prefix this)
      then (LeftPrefix,
            if rt_onLeave this
            then this\<lparr>rt_effects := rt_effects this @ [OnLeave (pathname nextLocation)]\<rparr>
            else this)
      else
        case matchLocation env this nextLocation of
          None \<Rightarrow> (Failed, this)
        | Some matching \<Rightarrow>
            changeRoutes env (this\<lparr>rt_matchingSource := matching\<rparr>) nextLocation
              (rt_location this) (matchToMatchEntryMap matching))"

text \<open>
  A location announced to an idle router: \<^verbatim>\<open>_onLocationChange\<close> records it and the
  chain runs it at once.
\<close>

definition runChanging :: "Env \<Rightarrow> Router \<Rightarrow> Completion option \<times> Router" where
  "runChanging env this =
     (case rt_changing this of
        [] \<Rightarrow> (None, this)
      | location # pending \<Rightarrow>
          (case asyncOnLocationChange env (this\<lparr>rt_changing := pending\<rparr>) location of
             (completion, this') \<Rightarrow> (Some completion, this')))"

definition navigate :: "Env \<Rightarrow> Router \<Rightarrow> Location \<Rightarrow> Completion option \<times> Router" where
  "navigate env this location = runChanging env (onLocationChange this location)"

section \<open>Vocabulary of the statements\<close>

text \<open>
  The location \<^verbatim>\<open>this._location || this._default\<close> that \<^verbatim>\<open>_revert\<close> hands to the
  history.
\<close>

definition fallback :: "Router \<Rightarrow> Location" where
  "fallback this = (case rt_location this of Some location \<Rightarrow> location | None \<Rightarrow> rt_default this)"

text \<open>The effects logged between two states of the router.\<close>

definition newEffects :: "Router \<Rightarrow> Router \<Rightarrow> Effect list" where
  "newEffects this this' = drop (length (rt_effects this)) (rt_effects this')"

text \<open>
  The fields that awaiting a hook leaves alone: everything but the latest requested
  location, the pending chain and the log.
\<close>

definition keeps :: "Router \<Rightarrow> Router \<Rightarrow> bool" where
  "keeps this this' =
     (rt_location this' = rt_location this \<and> rt_source this' = rt_source this
      \<and> rt_matchingSource this' = rt_matchingSource this \<and> rt_default this' = rt_default this
      \<and> rt_onChange this' = rt_onChange this)"

text \<open>A veto: a before hook that resolved to a falsy result.\<close>

fun isVeto :: "Effect \<Rightarrow> bool" where
  "isVeto (Hook kind node (Resolved result ls)) =
     (kind \<in> {BeforeLeave, BeforeEnter, BeforeUpdate} \<and> \<not> result)"
| "isVeto e = False"

fun isBeforeHook :: "Effect \<Rightarrow> bool" where
  "isBeforeHook (Hook kind node outcome) = (kind \<in> {BeforeLeave, BeforeEnter, BeforeUpdate})"
| "isBeforeHook e = False"

text \<open>
  A hook that resolved after a newer location had been requested: among the locations
  announced through \<^verbatim>\<open>_onLocationChange\<close> while the hook was awaited, the last one is
  not the location being processed, so that \<^verbatim>\<open>_nextLocation\<close> is another object when
  the processing resumes.
\<close>

fun supersededAfter :: "Location \<Rightarrow> Effect \<Rightarrow> bool" where
  "supersededAfter nextLocation (Hook kind node (Resolved result ls)) =
     (ls \<noteq> [] \<and> last ls \<noteq> nextLocation)"
| "supersededAfter nextLocation e = False"

fun hookNode :: "Effect \<Rightarrow> RouteNode option" where
  "hookNode (Hook kind node outcome) = Some node"
| "hookNode e = None"

fun hookCall :: "(HookKind \<times> RouteNode) list \<Rightarrow> Effect \<Rightarrow> bool" where
  "hookCall calls (Hook kind node outcome) = ((kind, node) \<in> set calls)"
| "hookCall calls e = False"

text \<open>The effects of a commit: the updates of the nodes and the change callback.\<close>

fun isCommitEffect :: "Effect \<Rightarrow> bool" where
  "isCommitEffect (Update node matched exact) = True"
| "isCommitEffect (OnChange location nextLocation) = True"
| "isCommitEffect e = False"

text \<open>
  A sibling completes a match when its own pattern matches and either the match is exact
  or its children match the rest: the two ways in which \<^verbatim>\<open>Router._match\<close> returns a
  chain that starts with it.
\<close>

definition completes :: "(RouteNode \<Rightarrow> string \<Rightarrow> NodeMatchResult) \<Rightarrow> string \<Rightarrow> RouteNode \<Rightarrow> bool" where
  "completes nodeMatch upperRest node =
     (nm_matched (nodeMatch node upperRest)
      \<and> (nm_exactlyMatched (nodeMatch node upperRest)
           \<or> routerMatch nodeMatch (node_children node) (nm_rest (nodeMatch node upperRest)) \<noteq> None))"

text \<open>The test of lines 369--372: captured segments and exactness are the same in both sources.\<close>

definition untouched :: "RouteSource \<Rightarrow> RouteSource \<Rightarrow> RouteNode \<Rightarrow> bool" where
  "untouched source matchingSource node =
     (isShallowlyEqual (pathSegments source node) (pathSegments matchingSource node)
      \<and> exactOf source node = exactOf matchingSource node)"

section \<open>Example inputs\<close>

text \<open>A node built with the wildcard \<^verbatim>\<open>"*"\<close>, and one built without query keys.\<close>

definition starNode :: RouteMatch where
  "starNode = \<lparr>rm_name = ''any'', rm_matchPattern = Rx re_star, rm_queryKeys = None,
     rm_matched = False, rm_fragments = None, rm_query = None\<rparr>"

definition aboutNode :: RouteMatch where
  "aboutNode = \<lparr>rm_name = ''about'', rm_matchPattern = Str ''about'', rm_queryKeys = None,
     rm_matched = False, rm_fragments = None, rm_query = None\<rparr>"

text \<open>
  The expression \<^verbatim>\<open>/^ab/\<close>: it matches the first two characters of a subject that
  starts with \<^verbatim>\<open>ab\<close>, whatever follows them.
\<close>

definition re_ab :: regexp where
  "re_ab = RegExp False (\<lambda>s. if take 2 s = ''ab'' then Some ''ab'' else None)"

definition abNode :: RouteMatch where
  "abNode = \<lparr>rm_name = ''item'', rm_matchPattern = Rx re_ab, rm_queryKeys = None,
     rm_matched = False, rm_fragments = None, rm_query = None\<rparr>"

text \<open>
  Two siblings with the same pattern \<^verbatim>\<open>x\<close>; only the second has a child for
  \<^verbatim>\<open>/x/d\<close>.
\<close>

definition shadowSchema :: "(string \<times> RouteSchema) list" where
  "shadowSchema =
     [(''a'', Schema (Some (Str ''x'')) None None None (Some [(''b'', SchemaBool True)])),
      (''c'', Schema (Some (Str ''x'')) None None None (Some [(''d'', SchemaBool True)]))]"

definition shadowA :: RouteNode where
  "shadowA = RouteNode [''a''] (Str ''x'') None False None
     [RouteNode [''a'', ''b''] (Str ''b'') None False None []]"

definition shadowD :: RouteNode where
  "shadowD = RouteNode [''c'', ''d''] (Str ''d'') None False None []"

definition shadowC :: RouteNode where
  "shadowC = RouteNode [''c''] (Str ''x'') None False None [shadowD]"

text \<open>
  Routers are built with the options left out, the history at \<^verbatim>\<open>/\<close>.  The keys of
  the examples are lower-case words, which the default segment matcher returns as they
  are.  Unless said otherwise, nodes match as \<^const>\<open>matchNode\<close> does, no node has a
  whitelist and the locations have no query.
\<close>

definition rootLocation :: Location where
  "rootLocation = \<lparr>loc_key = 0, pathname = ''/'', search = ''''\<rparr>"

definition noOptions :: RouterOptions where
  "noOptions = \<lparr>ropt_segmentMatcher = None, ropt_default = None, ropt_prefix = None,
     ropt_onLeave = False, ropt_onChange = False\<rparr>"

definition plainEnv :: "(HookKind \<Rightarrow> RouteNode \<Rightarrow> Router \<Rightarrow> HookOutcome) \<Rightarrow> Env" where
  "plainEnv hook = \<lparr>env_match = matchNode, env_parallel = (\<lambda>node. None),
     env_searchParams = (\<lambda>query. []), env_hook = hook\<rparr>"

text \<open>Hooks that all allow, and hooks that all veto, with no location arriving meanwhile.\<close>

definition allowAll :: Env where
  "allowAll = plainEnv (\<lambda>kind node this. Resolved True [])"

definition vetoAll :: Env where
  "vetoAll = plainEnv (\<lambda>kind node this. Resolved False [])"

text \<open>The schema of \<^verbatim>\<open>core/test/hooks.test.ts\<close> that C9 names.\<close>

definition exactSchema :: "(string \<times> RouteSchema) list" where
  "exactSchema =
     [(''parent'', Schema None None (Some True) None (Some [(''nested'', SchemaBool True)]))]"

definition nestedNode :: RouteNode where
  "nestedNode = RouteNode [''parent'', ''nested''] (Str ''nested'') None False None []"

definition parentNode :: RouteNode where
  "parentNode = RouteNode [''parent''] (Str ''parent'') None True None [nestedNode]"

definition exactRouter :: Router where
  "exactRouter = newRouter id rootLocation exactSchema noOptions"

definition toNested :: Location where
  "toNested = \<lparr>loc_key = 1, pathname = ''/parent/nested'', search = ''''\<rparr>"

definition toParent :: Location where
  "toParent = \<lparr>loc_key = 2, pathname = ''/parent'', search = ''''\<rparr>"

definition toParentAgain :: Location where
  "toParentAgain = \<lparr>loc_key = 3, pathname = ''/parent'', search = ''?tab=1''\<rparr>"

text \<open>A router with the single route \<^verbatim>\<open>about\<close>, and the location \<^verbatim>\<open>/about\<close> requested.\<close>

definition aboutSchema :: "(string \<times> RouteSchema) list" where
  "aboutSchema = [(''about'', SchemaBool True)]"

definition aboutRoute :: RouteNode where
  "aboutRoute = RouteNode [''about''] (Str ''about'') None False None []"

definition toAbout :: Location where
  "toAbout = \<lparr>loc_key = 1, pathname = ''/about'', search = ''''\<rparr>"

definition toElsewhere :: Location where
  "toElsewhere = \<lparr>loc_key = 2, pathname = ''/elsewhere'', search = ''''\<rparr>"

definition aboutRequested :: Router where
  "aboutRequested = (newRouter id rootLocation aboutSchema noOptions)\<lparr>rt_nextLocation := Some toAbout\<rparr>"

text \<open>
  Hooks that resolve while the location \<^verbatim>\<open>/elsewhere\<close> arrives: to a falsy result,
  and to a truthy one.
\<close>

definition vetoWhileSuperseded :: Env where
  "vetoWhileSuperseded = plainEnv (\<lambda>kind node this. Resolved False [toElsewhere])"

definition allowWhileSuperseded :: Env where
  "allowWhileSuperseded = plainEnv (\<lambda>kind node this. Resolved True [toElsewhere])"

text \<open>
  A primary route \<^verbatim>\<open>home\<close> and a route \<^verbatim>\<open>side\<close> of the group \<^verbatim>\<open>popup\<close>; the
  query \<^verbatim>\<open>?_popup=/side\<close> carries the path of the group.
\<close>

definition popupSchema :: "(string \<times> RouteSchema) list" where
  "popupSchema =
     [(''home'', SchemaBool True), (''side'', Schema None None None (Some (Some ''popup'')) None)]"

definition homeRoute :: RouteNode where
  "homeRoute = RouteNode [''home''] (Str ''home'') None False None []"

definition sideRoute :: RouteNode where
  "sideRoute = RouteNode [''side''] (Str ''side'') None False (Some ''popup'') []"

definition popupEnv :: Env where
  "popupEnv = (plainEnv (\<lambda>kind node this. Resolved True []))
     \<lparr>env_searchParams := (\<lambda>query. if query = ''?_popup=/side'' then [(''_popup'', ''/side'')] else [])\<rparr>"

definition toNowhereWithPopup :: Location where
  "toNowhereWithPopup = \<lparr>loc_key = 2, pathname = ''/nowhere'', search = ''?_popup=/side''\<rparr>"

definition toHomeWithPopup :: Location where
  "toHomeWithPopup = \<lparr>loc_key = 1, pathname = ''/home'', search = ''?_popup=/side''\<rparr>"

definition popupRouter :: Router where
  "popupRouter = newRouter id rootLocation popupSchema noOptions"

text \<open>A route whose child overrides the group.\<close>

definition overrideSchema :: "(string \<times> RouteSchema) list" where
  "overrideSchema =
     [(''a'', Schema None None None None
         (Some [(''b'', Schema None None None (Some (Some ''g'')) None)]))]"

definition overrideB :: RouteNode where
  "overrideB = RouteNode [''a'', ''b''] (Str ''b'') None False (Some ''g'') []"

definition overrideA :: RouteNode where
  "overrideA = RouteNode [''a''] (Str ''a'') None False None [overrideB]"

definition overrideRouter :: Router where
  "overrideRouter = newRouter id rootLocation overrideSchema noOptions"

definition toAB :: Location where
  "toAB = \<lparr>loc_key = 1, pathname = ''/a/b'', search = ''''\<rparr>"

text \<open>The states the examples pass through, and the sources computed on the way.\<close>

definition aboutMatching :: RouteSource where
  "aboutMatching =
     \<lparr>matchToMatchEntryMap =
        [(aboutRoute, \<lparr>entry_match = aboutRoute, entry_segment = Some ''about'', entry_exact = True\<rparr>)],
      queryDict = [], pathDict = [(''_'', ''/about'')]\<rparr>"

definition aboutVetoed :: Router where
  "aboutVetoed = aboutRequested
     \<lparr>rt_matchingSource := aboutMatching,
      rt_effects := [Hook BeforeEnter aboutRoute (Resolved False []), HistoryReplace rootLocation]\<rparr>"

definition aboutSuperseded :: "bool \<Rightarrow> Router" where
  "aboutSuperseded result = aboutRequested
     \<lparr>rt_nextLocation := Some toElsewhere, rt_matchingSource := aboutMatching,
      rt_changing := [toElsewhere],
      rt_effects := [Hook BeforeEnter aboutRoute (Resolved result [toElsewhere])]\<rparr>"

definition toAboutAgain :: Location where
  "toAboutAgain = \<lparr>loc_key = 3, pathname = ''/about'', search = ''''\<rparr>"

definition aboutCommitted :: Router where
  "aboutCommitted = aboutRequested
     \<lparr>rt_location := Some toAbout, rt_source := aboutMatching, rt_matchingSource := aboutMatching,
      rt_effects := [Hook BeforeEnter aboutRoute (Resolved True []), Update aboutRoute True True,
                     Hook AfterEnter aboutRoute (Resolved True [])]\<rparr>"

definition nestedSource :: RouteSource where
  "nestedSource =
     \<lparr>matchToMatchEntryMap =
        [(parentNode, \<lparr>entry_match = parentNode, entry_segment = Some ''parent'', entry_exact = False\<rparr>),
         (nestedNode, \<lparr>entry_match = nestedNode, entry_segment = Some ''nested'', entry_exact = True\<rparr>)],
      queryDict = [], pathDict = [(''_'', ''/parent/nested'')]\<rparr>"

definition parentSource :: RouteSource where
  "parentSource =
     \<lparr>matchToMatchEntryMap =
        [(parentNode, \<lparr>entry_match = parentNode, entry_segment = Some ''parent'', entry_exact = True\<rparr>)],
      queryDict = [], pathDict = [(''_'', ''/parent'')]\<rparr>"

definition atNested :: Router where
  "atNested = exactRouter
     \<lparr>rt_location := Some toNested, rt_nextLocation := Some toNested,
      rt_source := nestedSource, rt_matchingSource := nestedSource,
      rt_effects :=
        [Hook BeforeEnter parentNode (Resolved True []), Hook BeforeEnter nestedNode (Resolved True []),
         Update parentNode True False, Update nestedNode True True,
         Hook AfterEnter parentNode (Resolved True []), Hook AfterEnter nestedNode (Resolved True [])]\<rparr>"

definition atParent :: Router where
  "atParent = atNested
     \<lparr>rt_location := Some toParent, rt_nextLocation := Some toParent,
      rt_source := parentSource, rt_matchingSource := parentSource,
      rt_effects := rt_effects atNested @
        [Hook BeforeLeave nestedNode (Resolved True []), Hook BeforeUpdate parentNode (Resolved True []),
         Update nestedNode False False, Update parentNode True True,
         Hook AfterLeave nestedNode (Resolved True []), Hook AfterUpdate parentNode (Resolved True [])]\<rparr>"

definition atParentAgain :: Router where
  "atParentAgain = atParent
     \<lparr>rt_location := Some toParentAgain, rt_nextLocation := Some toParentAgain,
      rt_effects := rt_effects atParent @ [Update parentNode True True]\<rparr>"

definition toHome :: Location where
  "toHome = \<lparr>loc_key = 1, pathname = ''/home'', search = ''''\<rparr>"

definition homeSource :: RouteSource where
  "homeSource =
     \<lparr>matchToMatchEntryMap =
        [(homeRoute, \<lparr>entry_match = homeRoute, entry_segment = Some ''home'', entry_exact = True\<rparr>)],
      queryDict = [], pathDict = [(''_'', ''/home'')]\<rparr>"

definition popupAtHome :: Router where
  "popupAtHome = popupRouter
     \<lparr>rt_location := Some toHome, rt_nextLocation := Some toHome,
      rt_source := homeSource, rt_matchingSource := homeSource,
      rt_effects := [Hook BeforeEnter homeRoute (Resolved True []), Update homeRoute True True,
                     Hook AfterEnter homeRoute (Resolved True [])]\<rparr>"

definition nowhereSource :: RouteSource where
  "nowhereSource =
     \<lparr>matchToMatchEntryMap = [], queryDict = [],
      pathDict = [(''_'', ''/nowhere''), (''popup'', ''/side'')]\<rparr>"

definition popupAtNowhere :: Router where
  "popupAtNowhere = popupAtHome
     \<lparr>rt_location := Some toNowhereWithPopup, rt_nextLocation := Some toNowhereWithPopup,
      rt_source := nowhereSource, rt_matchingSource := nowhereSource,
      rt_effects := rt_effects popupAtHome @
        [Hook BeforeLeave homeRoute (Resolved True []), Update homeRoute False False,
         Hook AfterLeave homeRoute (Resolved True [])]\<rparr>"

definition homeWithPopupSource :: RouteSource where
  "homeWithPopupSource =
     \<lparr>matchToMatchEntryMap =
        [(homeRoute, \<lparr>entry_match = homeRoute, entry_segment = Some ''home'', entry_exact = True\<rparr>),
         (sideRoute, \<lparr>entry_match = sideRoute, entry_segment = Some ''side'', entry_exact = True\<rparr>)],
      queryDict = [], pathDict = [(''_'', ''/home''), (''popup'', ''/side'')]\<rparr>"

definition overrideSource :: RouteSource where
  "overrideSource =
     \<lparr>matchToMatchEntryMap =
        [(overrideA, \<lparr>entry_match = overrideA, entry_segment = Some ''a'', entry_exact = False\<rparr>),
         (overrideB, \<lparr>entry_match = overrideB, entry_segment = Some ''b'', entry_exact = True\<rparr>)],
      queryDict = [], pathDict = [(''_'', ''/a/b'')]\<rparr>"

section \<open>Properties of the route nodes\<close>

lemma star_pattern:
  "newRouteMatch name \<lparr>opt_match = Str ''*'', opt_query = q\<rparr> = Inr this \<Longrightarrow>
     rm_matchPattern this = Rx re_star"
  by (auto simp: newRouteMatch_def)

lemma isPathPrefix_takeWhile:
  "isPathPrefix rest (takeWhile (\<lambda>c. c \<noteq> CHR ''/'') rest)"
  by (induction rest) (simp_all add: isPathPrefix_def)

text \<open>
  C4, as the code has it.  A node whose pattern is \<^verbatim>\<open>"*"\<close>, given a path that starts
  with a separator, always matches: the captured segment is the text up to the next
  separator or the end of the path, so it holds no separator and the node consumes one
  segment, never more.  The segment may be empty.  An empty path is not matched, and a
  path that does not start with a separator is an error.
\<close>

theorem star_takes_one_possibly_empty_segment:
  assumes "newRouteMatch name \<lparr>opt_match = Str ''*'', opt_query = q\<rparr> = Inr this"
  shows "matchRest this False (CHR ''/'' # path) =
           Inr \<lparr>res_current = Some (takeWhile (\<lambda>c. c \<noteq> CHR ''/'') path),
                res_rest = dropWhile (\<lambda>c. c \<noteq> CHR ''/'') path\<rparr>
    \<and> CHR ''/'' \<notin> set (takeWhile (\<lambda>c. c \<noteq> CHR ''/'') path)
    \<and> (dropWhile (\<lambda>c. c \<noteq> CHR ''/'') path = [] \<or> hd (dropWhile (\<lambda>c. c \<noteq> CHR ''/'') path) = CHR ''/'')
    \<and> matchRest this False [] = Inr unmatched
    \<and> (c \<noteq> CHR ''/'' \<longrightarrow>
          matchRest this False (c # path) = Inl (ExpectingRestStartedWithSlash (c # path)))"
proof -
  have p: "rm_matchPattern this = Rx re_star"
    by (rule star_pattern [OF assms])
  have e: "re_exec re_star path = Some (takeWhile (\<lambda>c. c \<noteq> CHR ''/'') path)"
    by (simp add: re_star_def)
  have m: "matchRest this False (CHR ''/'' # path) =
      Inr \<lparr>res_current = Some (takeWhile (\<lambda>c. c \<noteq> CHR ''/'') path),
           res_rest = dropWhile (\<lambda>c. c \<noteq> CHR ''/'') path\<rparr>"
    unfolding matchRest_def using p e isPathPrefix_takeWhile [of path]
    by (simp add: dropWhile_eq_drop)
  have s: "CHR ''/'' \<notin> set (takeWhile (\<lambda>c. c \<noteq> CHR ''/'') path)"
    using set_takeWhileD [of "CHR ''/''" "\<lambda>c. c \<noteq> CHR ''/''" path] by blast
  have d: "dropWhile (\<lambda>c. c \<noteq> CHR ''/'') path = []
      \<or> hd (dropWhile (\<lambda>c. c \<noteq> CHR ''/'') path) = CHR ''/''"
    using hd_dropWhile [of "\<lambda>c. c \<noteq> CHR ''/''" path] by blast
  have n: "matchRest this False [] = Inr unmatched"
    by (simp add: matchRest_def)
  have x: "c \<noteq> CHR ''/'' \<longrightarrow>
      matchRest this False (c # path) = Inl (ExpectingRestStartedWithSlash (c # path))"
    by (simp add: matchRest_def)
  from m s d n x show ?thesis
    by blast
qed

theorem star_takes_one_possibly_empty_segment_witness:
  "newRouteMatch ''any'' \<lparr>opt_match = Str ''*'', opt_query = None\<rparr> = Inr starNode
   \<and> matchRest starNode False ''/ab/c'' = Inr \<lparr>res_current = Some ''ab'', res_rest = ''/c''\<rparr>
   \<and> matchRest starNode False ''x'' = Inl (ExpectingRestStartedWithSlash ''x'')"
proof -
  have h: "newRouteMatch ''any'' \<lparr>opt_match = Str ''*'', opt_query = None\<rparr> = Inr starNode"
    by (simp add: newRouteMatch_def starNode_def)
  show ?thesis
    using h star_takes_one_possibly_empty_segment [OF h, of "''ab/c''" "CHR ''x''"]
      star_takes_one_possibly_empty_segment [OF h, of "''''" "CHR ''x''"]
    by simp
qed

text \<open>
  C4 as stated fails: on the path \<^verbatim>\<open>/\<close>, and on \<^verbatim>\<open>//b\<close>, the wildcard matches
  the empty segment.
\<close>

theorem star_matches_empty_segment:
  "newRouteMatch ''any'' \<lparr>opt_match = Str ''*'', opt_query = None\<rparr> = Inr starNode
   \<and> matchRest starNode False ''/'' = Inr \<lparr>res_current = Some '''', res_rest = ''''\<rparr>
   \<and> matchRest starNode False ''//b'' = Inr \<lparr>res_current = Some '''', res_rest = ''/b''\<rparr>"
  by (simp add: newRouteMatch_def starNode_def matchRest_def re_star_def isPathPrefix_def)

text \<open>
  C5, as the code has it.  The constructor accepts every expression that is not global,
  whatever it matches.  When the text such an expression matches in the rest of a path
  is not followed by a separator or the end of the path, \<^verbatim>\<open>_match\<close> raises the error
  at the time the path is matched; it does not report a failed match.
\<close>

theorem unterminated_regexp_match_raises_when_matching:
  assumes "\<not> re_global r" and "re_exec r path = Some m" and "\<not> isPathPrefix path m"
  shows "\<exists>this. newRouteMatch name \<lparr>opt_match = Rx r, opt_query = q\<rparr> = Inr this
           \<and> matchRest this False (CHR ''/'' # path) = Inl (InvalidRegularExpressionPattern m path)"
  using assms
  by (simp add: newRouteMatch_def matchRest_def)

theorem unterminated_regexp_match_raises_when_matching_witness:
  "\<not> re_global re_ab \<and> re_exec re_ab ''abc'' = Some ''ab'' \<and> \<not> isPathPrefix ''abc'' ''ab''
   \<and> (\<exists>this. newRouteMatch ''item'' \<lparr>opt_match = Rx re_ab, opt_query = None\<rparr> = Inr this
          \<and> matchRest this False ''/abc'' = Inl (InvalidRegularExpressionPattern ''ab'' ''abc''))"
proof -
  have h: "\<not> re_global re_ab" "re_exec re_ab ''abc'' = Some ''ab''" "\<not> isPathPrefix ''abc'' ''ab''"
    by (simp_all add: re_ab_def isPathPrefix_def)
  show ?thesis
    using h unterminated_regexp_match_raises_when_matching [OF h, of "''item''" None]
    by simp
qed

text \<open>
  C5 as stated fails: building a node with the expression \<^verbatim>\<open>/^ab/\<close> succeeds, and the
  error comes when the path \<^verbatim>\<open>/abc\<close> is matched.  Only a global expression is
  refused by the constructor.
\<close>

theorem unterminated_regexp_is_accepted_at_build:
  "newRouteMatch ''item'' \<lparr>opt_match = Rx re_ab, opt_query = None\<rparr> = Inr abNode
   \<and> matchRest abNode False ''/abc'' = Inl (InvalidRegularExpressionPattern ''ab'' ''abc'')
   \<and> newRouteMatch ''item'' \<lparr>opt_match = Rx (RegExp True (re_exec re_ab)), opt_query = None\<rparr>
       = Inl ExpectingNonGlobal"
  by (simp add: newRouteMatch_def abNode_def matchRest_def re_ab_def isPathPrefix_def)

lemma push_sets_query:
  "push this skipped upperRest fragments query sourceQuery = Inr (result, this') \<Longrightarrow>
     getQuery this' = Inr (push_queryDict result)"
  by (auto simp: push_def getQuery_def Let_def split: sum.splits)

text \<open>
  C7 on the code.  A node built without query keys raises when its query is read
  before any \<^verbatim>\<open>_push\<close>.  Once \<^verbatim>\<open>_push\<close> has run on it (here it matches
  \<^verbatim>\<open>/about\<close>, with \<^verbatim>\<open>id=1\<close> in the query of the location), the getter returns a
  dictionary, here the empty one, and raises nothing.
\<close>

theorem query_of_undeclared_node_readable_after_push:
  "newRouteMatch ''about'' \<lparr>opt_match = Str ''about'', opt_query = None\<rparr> = Inr aboutNode
   \<and> getQuery aboutNode = Inl QueryNotAccessible
   \<and> map_sum id (\<lambda>(result, this'). (push_matched result, rm_queryKeys this', getQuery this'))
        (push aboutNode False ''/about'' [] [] [(''id'', Some ''1'')])
      = Inr (True, None, Inr [])"
  by (simp add: newRouteMatch_def aboutNode_def push_def matchRest_def isPathPrefix_def
        getQuery_def spread_def Let_def)

section \<open>Properties of the matcher\<close>

lemma routerMatch_skip:
  "\<not> completes nodeMatch upperRest node \<Longrightarrow>
     routerMatch nodeMatch (node # siblings) upperRest = routerMatch nodeMatch siblings upperRest"
  by (cases node) (auto simp: completes_def Let_def split: option.splits)

lemma routerMatch_take:
  "completes nodeMatch upperRest node \<Longrightarrow>
     \<exists>chain. routerMatch nodeMatch (node # siblings) upperRest = Some chain
       \<and> chain \<noteq> [] \<and> entry_match (hd chain) = node
       \<and> routerMatch nodeMatch [node] upperRest = Some chain"
  by (cases node) (auto simp: completes_def Let_def split: option.splits)

lemma routerMatch_none:
  "\<forall>node\<in>set nodes. \<not> completes nodeMatch upperRest node \<Longrightarrow> routerMatch nodeMatch nodes upperRest = None"
  by (induction nodes) (simp_all add: routerMatch_skip)


text \<open>
  C2, as the code has it.  Siblings are tried in declaration order, and the chain starts
  with the first sibling that completes a match: its pattern matches the next segment
  and either the match is exact or its children match the rest of the path.  Siblings
  declared before it that do not complete are passed over, also when their pattern
  matches the segment; siblings declared after it are not looked at, whatever their
  patterns.  The chain is the one the sibling yields on its own.
\<close>

theorem first_completing_sibling_wins:
  assumes "completes nodeMatch upperRest node"
      and "\<forall>earlier\<in>set before. \<not> completes nodeMatch upperRest earlier"
  shows "\<exists>chain. routerMatch nodeMatch (before @ node # after) upperRest = Some chain
           \<and> chain \<noteq> [] \<and> entry_match (hd chain) = node
           \<and> routerMatch nodeMatch [node] upperRest = Some chain"
  using assms(2)
proof (induction before)
  case Nil
  show ?case using routerMatch_take [OF assms(1)] by simp
next
  case (Cons e es)
  then have "\<not> completes nodeMatch upperRest e" by simp
  from routerMatch_skip [OF this] Cons show ?case by simp
qed


theorem first_completing_sibling_wins_witness:
  "completes matchNode ''/x/d'' shadowC \<and> \<not> completes matchNode ''/x/d'' shadowA
   \<and> routerMatch matchNode ([shadowA] @ shadowC # []) ''/x/d''
       = Some [\<lparr>entry_match = shadowC, entry_segment = Some ''x'', entry_exact = False\<rparr>,
               \<lparr>entry_match = shadowD, entry_segment = Some ''d'', entry_exact = True\<rparr>]"
proof -
  have h1: "completes matchNode ''/x/d'' shadowC"
    by (simp add: completes_def shadowC_def shadowD_def matchNode_def matchSegment_def noMatch_def isPathPrefix_def)
  have h2: "\<forall>earlier\<in>set [shadowA]. \<not> completes matchNode ''/x/d'' earlier"
    by (simp add: completes_def shadowA_def matchNode_def matchSegment_def noMatch_def isPathPrefix_def)
  have c: "routerMatch matchNode [shadowC] ''/x/d''
       = Some [\<lparr>entry_match = shadowC, entry_segment = Some ''x'', entry_exact = False\<rparr>,
               \<lparr>entry_match = shadowD, entry_segment = Some ''d'', entry_exact = True\<rparr>]"
    by (simp add: shadowC_def shadowD_def matchNode_def matchSegment_def noMatch_def isPathPrefix_def)
  show ?thesis
    using h1 h2 c first_completing_sibling_wins [OF h1 h2, of "[]"]
    by auto
qed

text \<open>
  C2 as stated fails: both siblings match the segment \<^verbatim>\<open>x\<close> of \<^verbatim>\<open>/x/d\<close>, and
  the chain starts with the one declared second, because the children of the first do
  not match \<^verbatim>\<open>/d\<close>.
\<close>

theorem later_sibling_wins_when_earlier_cannot_complete:
  "build id None [] shadowSchema = [shadowA, shadowC]
   \<and> nm_matched (matchNode shadowA ''/x/d'') \<and> nm_matched (matchNode shadowC ''/x/d'')
   \<and> routerMatch matchNode [shadowA, shadowC] ''/x/d''
       = Some [\<lparr>entry_match = shadowC, entry_segment = Some ''x'', entry_exact = False\<rparr>,
               \<lparr>entry_match = shadowD, entry_segment = Some ''d'', entry_exact = True\<rparr>]"
  by (simp add: shadowSchema_def shadowA_def shadowC_def shadowD_def matchNode_def matchSegment_def noMatch_def
        isPathPrefix_def)


section \<open>The hook loops and the transition\<close>

subsection \<open>Awaiting a hook\<close>

lemma keeps_refl: "keeps this this"
  by (simp add: keeps_def)

lemma keeps_trans: "keeps a b \<Longrightarrow> keeps b c \<Longrightarrow> keeps a c"
  by (simp add: keeps_def)

lemma foldl_onLocationChange_keeps:
  "keeps this (foldl onLocationChange this ls) \<and> rt_effects (foldl onLocationChange this ls) = rt_effects this"
proof (induction ls arbitrary: this)
  case Nil show ?case by (simp add: keeps_def)
next
  case (Cons l ls)
  have "keeps this (onLocationChange this l)" "rt_effects (onLocationChange this l) = rt_effects this"
    by (simp_all add: keeps_def onLocationChange_def)
  with Cons [of "onLocationChange this l"] show ?case by (auto intro: keeps_trans)
qed

lemma awaitHook_keeps: "awaitHook env kind node this = (out, this') \<Longrightarrow> keeps this this'"
  using foldl_onLocationChange_keeps [of "this\<lparr>rt_effects := rt_effects this @ [Hook kind node (env_hook env kind node this)]\<rparr>"]
  by (auto simp: awaitHook_def Let_def keeps_def)

lemma awaitHook_effects:
  "awaitHook env kind node this = (out, this') \<Longrightarrow> rt_effects this' = rt_effects this @ [Hook kind node out]"
  using foldl_onLocationChange_keeps [of "this\<lparr>rt_effects := rt_effects this @ [Hook kind node (env_hook env kind node this)]\<rparr>"]
  by (auto simp: awaitHook_def Let_def)

lemma revert_keeps: "keeps this (revert this)"
  by (simp add: keeps_def revert_def)

lemma fallback_keeps: "keeps this this' \<Longrightarrow> fallback this' = fallback this"
  by (simp add: keeps_def fallback_def split: option.splits)

subsection \<open>The loops over the hooks\<close>

lemma beforeHooks_keeps:
  "beforeHooks env nl calls this = (r, this') \<Longrightarrow> keeps this this'"
proof (induction calls arbitrary: this)
  case Nil then show ?case by (simp add: keeps_refl)
next
  case (Cons call calls)
  obtain kind node where call: "call = (kind, node)" by (cases call)
  obtain out this1 where aw: "awaitHook env kind node this = (out, this1)" by (cases "awaitHook env kind node this")
  have k1: "keeps this this1" by (rule awaitHook_keeps [OF aw])
  show ?case
  proof (cases out)
    case (Rejected ls)
    with Cons.prems call aw k1 show ?thesis by simp
  next
    case (Resolved result ls)
    show ?thesis
    proof (cases "isNextLocationOutDated this1 nl")
      case True with Cons.prems call aw k1 Resolved show ?thesis by simp
    next
      case False
      show ?thesis
      proof (cases result)
        case True
        with Cons.prems call aw Resolved False have "beforeHooks env nl calls this1 = (r, this')" by simp
        from Cons.IH [OF this] k1 show ?thesis by (rule keeps_trans [rotated])
      next
        case f: False
        with Cons.prems call aw Resolved False have "this' = revert this1" by simp
        with k1 revert_keeps [of this1] show ?thesis by (auto intro: keeps_trans)
      qed
    qed
  qed
qed

lemma hookCall_Cons: "hookCall calls e \<Longrightarrow> hookCall (call # calls) e"
  by (cases e) simp_all

lemma beforeHooks_result:
  "beforeHooks env nl calls this = (r, this') \<Longrightarrow>
     r = None \<or> r = Some Abandoned \<or> r = Some Reverted \<or> r = Some Failed"
  by (induction calls arbitrary: this)
     (auto split: prod.splits HookOutcome.splits if_splits)

lemma beforeHooks_abandoned:
  "beforeHooks env nl calls this = (Some Abandoned, this') \<Longrightarrow> rt_nextLocation this' \<noteq> Some nl"
  by (induction calls arbitrary: this)
     (auto simp: isNextLocationOutDated_def split: prod.splits HookOutcome.splits if_splits)

lemma beforeHooks_news:
  "beforeHooks env nl calls this = (r, this') \<Longrightarrow>
     \<exists>news. rt_effects this' = rt_effects this @ news
       \<and> (\<forall>e\<in>set news. hookCall calls e \<or> (r = Some Reverted \<and> e = HistoryReplace (fallback this)))
       \<and> (r \<noteq> Some Abandoned \<and> r \<noteq> Some Reverted \<longrightarrow> (\<forall>e\<in>set news. \<not> isVeto e))
       \<and> (r = Some Reverted \<longrightarrow> news \<noteq> [] \<and> last news = HistoryReplace (fallback this))"
proof (induction calls arbitrary: this)
  case Nil then show ?case by simp
next
  case (Cons call calls)
  obtain kind node where call: "call = (kind, node)" by (cases call)
  obtain out this1 where aw: "awaitHook env kind node this = (out, this1)"
    by (cases "awaitHook env kind node this")
  have k1: "keeps this this1" by (rule awaitHook_keeps [OF aw])
  have e1: "rt_effects this1 = rt_effects this @ [Hook kind node out]" by (rule awaitHook_effects [OF aw])
  have fb: "fallback this1 = fallback this" by (rule fallback_keeps [OF k1])
  show ?case
  proof (cases out)
    case (Rejected ls)
    with Cons.prems call aw have "r = Some Failed" "this' = this1" by simp_all
    with e1 Rejected call show ?thesis by simp
  next
    case (Resolved result ls)
    show ?thesis
    proof (cases "isNextLocationOutDated this1 nl")
      case True
      with Cons.prems call aw Resolved have "r = Some Abandoned" "this' = this1" by simp_all
      with e1 call show ?thesis by simp
    next
      case False
      show ?thesis
      proof (cases result)
        case True
        with Cons.prems call aw Resolved False have "beforeHooks env nl calls this1 = (r, this')" by simp
        from Cons.IH [OF this] obtain news where
          n: "rt_effects this' = rt_effects this1 @ news"
             "\<forall>e\<in>set news. hookCall calls e \<or> (r = Some Reverted \<and> e = HistoryReplace (fallback this1))"
             "r \<noteq> Some Abandoned \<and> r \<noteq> Some Reverted \<longrightarrow> (\<forall>e\<in>set news. \<not> isVeto e)"
             "r = Some Reverted \<longrightarrow> news \<noteq> [] \<and> last news = HistoryReplace (fallback this1)"
          by blast
        have "rt_effects this' = rt_effects this @ (Hook kind node out # news)" using n(1) e1 by simp
        moreover have "\<forall>e\<in>set (Hook kind node out # news).
            hookCall (call # calls) e \<or> (r = Some Reverted \<and> e = HistoryReplace (fallback this))"
          using n(2) fb call by (auto intro: hookCall_Cons)
        moreover have "r \<noteq> Some Abandoned \<and> r \<noteq> Some Reverted \<longrightarrow>
            (\<forall>e\<in>set (Hook kind node out # news). \<not> isVeto e)"
          using n(3) Resolved True by simp
        moreover have "r = Some Reverted \<longrightarrow> Hook kind node out # news \<noteq> []
            \<and> last (Hook kind node out # news) = HistoryReplace (fallback this)"
          using n(4) fb by simp
        ultimately show ?thesis by blast
      next
        case f: False
        with Cons.prems call aw Resolved False have r: "r = Some Reverted" "this' = revert this1" by simp_all
        have "rt_effects this' = rt_effects this @ [Hook kind node out, HistoryReplace (fallback this)]"
          using r e1 fb by (simp add: revert_def fallback_def)
        moreover have "\<forall>e\<in>set [Hook kind node out, HistoryReplace (fallback this)].
            hookCall (call # calls) e \<or> (r = Some Reverted \<and> e = HistoryReplace (fallback this))"
          using r call by simp
        ultimately show ?thesis using r by (intro exI [of _ "[Hook kind node out, HistoryReplace (fallback this)]"]) simp
      qed
    qed
  qed
qed

lemma afterHooks_keeps:
  "afterHooks env calls this = (r, this') \<Longrightarrow> keeps this this'"
proof (induction calls arbitrary: this)
  case Nil then show ?case by (simp add: keeps_refl)
next
  case (Cons call calls)
  obtain kind node where call: "call = (kind, node)" by (cases call)
  obtain out this1 where aw: "awaitHook env kind node this = (out, this1)"
    by (cases "awaitHook env kind node this")
  have k1: "keeps this this1" by (rule awaitHook_keeps [OF aw])
  show ?case
  proof (cases out)
    case (Rejected ls)
    with Cons.prems call aw k1 show ?thesis by simp
  next
    case (Resolved result ls)
    with Cons.prems call aw have "afterHooks env calls this1 = (r, this')" by simp
    from Cons.IH [OF this] k1 show ?thesis by (rule keeps_trans [rotated])
  qed
qed

lemma afterHooks_result:
  "afterHooks env calls this = (r, this') \<Longrightarrow> r = None \<or> r = Some Failed"
  by (induction calls arbitrary: this) (auto split: prod.splits HookOutcome.splits)

lemma afterHooks_news:
  "afterHooks env calls this = (r, this') \<Longrightarrow>
     \<exists>news. rt_effects this' = rt_effects this @ news \<and> (\<forall>e\<in>set news. hookCall calls e)"
proof (induction calls arbitrary: this)
  case Nil then show ?case by simp
next
  case (Cons call calls)
  obtain kind node where call: "call = (kind, node)" by (cases call)
  obtain out this1 where aw: "awaitHook env kind node this = (out, this1)"
    by (cases "awaitHook env kind node this")
  have e1: "rt_effects this1 = rt_effects this @ [Hook kind node out]" by (rule awaitHook_effects [OF aw])
  show ?case
  proof (cases out)
    case (Rejected ls)
    with Cons.prems call aw have "this' = this1" by simp
    with e1 call show ?thesis by simp
  next
    case (Resolved result ls)
    with Cons.prems call aw have "afterHooks env calls this1 = (r, this')" by simp
    from Cons.IH [OF this] obtain news where
      n: "rt_effects this' = rt_effects this1 @ news" "\<forall>e\<in>set news. hookCall calls e" by blast
    have "rt_effects this' = rt_effects this @ (Hook kind node out # news)" using n(1) e1 by simp
    moreover have "\<forall>e\<in>set (Hook kind node out # news). hookCall (call # calls) e"
      using n(2) call by (auto intro: hookCall_Cons)
    ultimately show ?thesis by blast
  qed
qed

lemma beforeHooks_reverted:
  "beforeHooks env nl calls this = (Some Reverted, this') \<Longrightarrow> rt_nextLocation this' = Some nl"
  by (induction calls arbitrary: this)
     (auto simp: isNextLocationOutDated_def revert_def split: prod.splits HookOutcome.splits if_splits)

subsection \<open>The phases of a transition\<close>

text \<open>The four ways through \<^const>\<open>changeRoutes\<close>, with the states in between.\<close>

lemma changeRoutes_cases:
  assumes "changeRoutes env this nl location nextMap = (c, this')"
  obtains
    (leave) "beforeHooks env nl (leaveCalls this nextMap) this = (Some c, this')"
  | (enter) this1 where
      "beforeHooks env nl (leaveCalls this nextMap) this = (None, this1)"
      "beforeHooks env nl (enterCalls this nextMap) this1 = (Some c, this')"
  | (after) this1 this2 where
      "beforeHooks env nl (leaveCalls this nextMap) this = (None, this1)"
      "beforeHooks env nl (enterCalls this nextMap) this1 = (None, this2)"
      "afterHooks env (afterCalls this nextMap) (commit this this2 nl nextMap) = (Some c, this')"
  | (finish) this1 this2 this4 where
      "beforeHooks env nl (leaveCalls this nextMap) this = (None, this1)"
      "beforeHooks env nl (enterCalls this nextMap) this1 = (None, this2)"
      "afterHooks env (afterCalls this nextMap) (commit this this2 nl nextMap) = (None, this4)"
      "c = Changed"
      "this' = (if rt_onChange this4
                then this4\<lparr>rt_effects := rt_effects this4 @ [OnChange location nl]\<rparr> else this4)"
proof -
  obtain r1 this1 where b1: "beforeHooks env nl (leaveCalls this nextMap) this = (r1, this1)"
    by (cases "beforeHooks env nl (leaveCalls this nextMap) this")
  show thesis
  proof (cases r1)
    case (Some c1)
    with assms b1 have "c1 = c" "this1 = this'" by (simp_all add: changeRoutes_def)
    with b1 Some show thesis by (intro leave) simp
  next
    case n1: None
    obtain r2 this2 where b2: "beforeHooks env nl (enterCalls this nextMap) this1 = (r2, this2)"
      by (cases "beforeHooks env nl (enterCalls this nextMap) this1")
    show thesis
    proof (cases r2)
      case (Some c2)
      with assms b1 n1 b2 have "c2 = c" "this2 = this'" by (simp_all add: changeRoutes_def)
      with b1 n1 b2 Some show thesis by (intro enter [of this1]) simp_all
    next
      case n2: None
      obtain r3 this4 where
        b3: "afterHooks env (afterCalls this nextMap) (commit this this2 nl nextMap) = (r3, this4)"
        by (cases "afterHooks env (afterCalls this nextMap) (commit this this2 nl nextMap)")
      show thesis
      proof (cases r3)
        case (Some c3)
        with assms b1 n1 b2 n2 b3 have "c3 = c" "this4 = this'" by (simp_all add: changeRoutes_def)
        with b1 n1 b2 n2 b3 Some show thesis by (intro after [of this1 this2]) simp_all
      next
        case n3: None
        with assms b1 n1 b2 n2 b3 have "c = Changed"
          "this' = (if rt_onChange this4
                then this4\<lparr>rt_effects := rt_effects this4 @ [OnChange location nl]\<rparr> else this4)"
          by (simp_all add: changeRoutes_def)
        with b1 n1 b2 n2 b3 n3 show thesis by (intro finish [of this1 this2 this4]) simp_all
      qed
    qed
  qed
qed

lemma leaveCalls_before: "hookCall (leaveCalls this nextMap) e \<Longrightarrow> isBeforeHook e"
  by (cases e) (auto simp: leaveCalls_def)

lemma enterCalls_before: "hookCall (enterCalls this nextMap) e \<Longrightarrow> isBeforeHook e"
  by (cases e) (auto simp: enterCalls_def)

lemma afterCalls_not_veto: "hookCall (afterCalls this nextMap) e \<Longrightarrow> \<not> isVeto e"
  by (cases e rule: isVeto.cases) (auto simp: afterCalls_def split: if_splits)

lemma leaveCalls_node:
  "hookCall (leaveCalls this nextMap) e \<Longrightarrow> \<exists>node. hookNode e = Some node \<and> node \<in> set (reversedLeavingMatches this nextMap)"
  by (cases e) (auto simp: leaveCalls_def)

lemma enterCalls_node:
  "hookCall (enterCalls this nextMap) e \<Longrightarrow> \<exists>node. hookNode e = Some node \<and> node \<in> set (enteringAndUpdatingMatchSet this nextMap)"
  by (cases e) (auto simp: enterCalls_def)

lemma afterCalls_node:
  "hookCall (afterCalls this nextMap) e \<Longrightarrow> \<exists>node. hookNode e = Some node \<and>
     node \<in> set (reversedLeavingMatches this nextMap) \<union> set (enteringAndUpdatingMatchSet this nextMap)"
  by (cases e) (auto simp: afterCalls_def)

lemma commit_effects:
  "rt_effects (commit this this2 nl nextMap) = rt_effects this2 @ updates this nextMap"
  by (simp add: commit_def)

lemma updates_commit: "e \<in> set (updates this nextMap) \<Longrightarrow> isCommitEffect e"
  by (auto simp: updates_def)

lemma commit_fields:
  "rt_location (commit this this2 nl nextMap) = Some nl"
  "rt_source (commit this this2 nl nextMap) = rt_matchingSource this2"
  by (simp_all add: commit_def)

text \<open>
  What a transition adds to the log: the effects of the leave phase, of the enter phase
  and of the commit, and what each way out says about them.
\<close>

lemma changeRoutes_decompose:
  assumes cr: "changeRoutes env this nl location nextMap = (c, this')"
  shows "\<exists>n1 n2 n3.
      rt_effects this' = rt_effects this @ n1 @ n2 @ n3
    \<and> (\<forall>e\<in>set n1. hookCall (leaveCalls this nextMap) e \<or> (c = Reverted \<and> e = HistoryReplace (fallback this)))
    \<and> (\<forall>e\<in>set n2. hookCall (enterCalls this nextMap) e \<or> (c = Reverted \<and> e = HistoryReplace (fallback this)))
    \<and> (\<forall>e\<in>set n3. isCommitEffect e \<or> hookCall (afterCalls this nextMap) e)
    \<and> (c \<noteq> Abandoned \<and> c \<noteq> Reverted \<longrightarrow> (\<forall>e\<in>set (n1 @ n2). \<not> isVeto e))
    \<and> (c = Abandoned \<or> c = Reverted \<longrightarrow> n3 = [] \<and> keeps this this')
    \<and> (c = Abandoned \<longrightarrow> rt_nextLocation this' \<noteq> Some nl)
    \<and> (c = Reverted \<longrightarrow> rt_nextLocation this' = Some nl)
    \<and> (c = Reverted \<longrightarrow> n1 @ n2 \<noteq> [] \<and> last (n1 @ n2) = HistoryReplace (fallback this))
    \<and> (c = Changed \<longrightarrow> rt_location this' = Some nl \<and> rt_source this' = rt_matchingSource this)
    \<and> (c = Abandoned \<or> c = Reverted \<or> c = Failed \<or> c = Changed)"
  using cr
proof (cases rule: changeRoutes_cases)
  case leave
  from beforeHooks_news [OF leave] obtain n1 where
    n1: "rt_effects this' = rt_effects this @ n1"
      "\<forall>e\<in>set n1. hookCall (leaveCalls this nextMap) e \<or> (Some c = Some Reverted \<and> e = HistoryReplace (fallback this))"
      "Some c \<noteq> Some Abandoned \<and> Some c \<noteq> Some Reverted \<longrightarrow> (\<forall>e\<in>set n1. \<not> isVeto e)"
      "Some c = Some Reverted \<longrightarrow> n1 \<noteq> [] \<and> last n1 = HistoryReplace (fallback this)"
    by blast
  have k: "keeps this this'" by (rule beforeHooks_keeps [OF leave])
  have r: "c = Abandoned \<or> c = Reverted \<or> c = Failed" using beforeHooks_result [OF leave] by simp
  have a: "c = Abandoned \<longrightarrow> rt_nextLocation this' \<noteq> Some nl"
    using beforeHooks_abandoned [of env nl _ this this'] leave by auto
  have ch: "c \<noteq> Changed" using r by auto
  have v: "c = Reverted \<longrightarrow> rt_nextLocation this' = Some nl"
    using beforeHooks_reverted [of env nl _ this this'] leave by auto
  show ?thesis
    apply (rule exI [of _ n1], rule exI [of _ "[]"], rule exI [of _ "[]"])
    using n1 k r a ch v by simp
next
  case (enter this1)
  from beforeHooks_news [OF enter(1)] obtain n1 where
    n1: "rt_effects this1 = rt_effects this @ n1"
      "\<forall>e\<in>set n1. hookCall (leaveCalls this nextMap) e"
      "\<forall>e\<in>set n1. \<not> isVeto e"
    by auto
  have k1: "keeps this this1" by (rule beforeHooks_keeps [OF enter(1)])
  have fb: "fallback this1 = fallback this" by (rule fallback_keeps [OF k1])
  from beforeHooks_news [OF enter(2)] obtain n2 where
    n2: "rt_effects this' = rt_effects this1 @ n2"
      "\<forall>e\<in>set n2. hookCall (enterCalls this nextMap) e \<or> (Some c = Some Reverted \<and> e = HistoryReplace (fallback this))"
      "Some c \<noteq> Some Abandoned \<and> Some c \<noteq> Some Reverted \<longrightarrow> (\<forall>e\<in>set n2. \<not> isVeto e)"
      "Some c = Some Reverted \<longrightarrow> n2 \<noteq> [] \<and> last n2 = HistoryReplace (fallback this)"
    unfolding fb by blast
  have k: "keeps this this'" using k1 beforeHooks_keeps [OF enter(2)] by (rule keeps_trans)
  have r: "c = Abandoned \<or> c = Reverted \<or> c = Failed" using beforeHooks_result [OF enter(2)] by simp
  have a: "c = Abandoned \<longrightarrow> rt_nextLocation this' \<noteq> Some nl"
    using beforeHooks_abandoned [of env nl _ this1 this'] enter(2) by auto
  have ch: "c \<noteq> Changed" using r by auto
  have e: "rt_effects this' = rt_effects this @ n1 @ n2 @ []" using n1(1) n2(1) by simp
  have v: "c = Reverted \<longrightarrow> rt_nextLocation this' = Some nl"
    using beforeHooks_reverted [of env nl _ this1 this'] enter(2) by auto
  show ?thesis
    apply (rule exI [of _ n1], rule exI [of _ n2], rule exI [of _ "[]"])
    using e n1(2,3) n2(2,3,4) k r a ch v by auto
next
  case (after this1 this2)
  from beforeHooks_news [OF after(1)] obtain n1 where
    n1: "rt_effects this1 = rt_effects this @ n1"
      "\<forall>e\<in>set n1. hookCall (leaveCalls this nextMap) e"
      "\<forall>e\<in>set n1. \<not> isVeto e"
    by auto
  from beforeHooks_news [OF after(2)] obtain n2 where
    n2: "rt_effects this2 = rt_effects this1 @ n2"
      "\<forall>e\<in>set n2. hookCall (enterCalls this nextMap) e"
      "\<forall>e\<in>set n2. \<not> isVeto e"
    by auto
  from afterHooks_news [OF after(3)] obtain n3 where
    n3: "rt_effects this' = rt_effects (commit this this2 nl nextMap) @ n3"
      "\<forall>e\<in>set n3. hookCall (afterCalls this nextMap) e"
    by blast
  have c: "c = Failed" using afterHooks_result [OF after(3)] by simp
  have e: "rt_effects this' = rt_effects this @ n1 @ n2 @ (updates this nextMap @ n3)"
    using n1(1) n2(1) n3(1) by (simp add: commit_effects)
  have u: "\<forall>e\<in>set (updates this nextMap @ n3). isCommitEffect e \<or> hookCall (afterCalls this nextMap) e"
    using n3(2) updates_commit by auto
  show ?thesis
    apply (rule exI [of _ n1], rule exI [of _ n2], rule exI [of _ "updates this nextMap @ n3"])
    using e n1(2,3) n2(2,3) u c by auto
next
  case (finish this1 this2 this4)
  from beforeHooks_news [OF finish(1)] obtain n1 where
    n1: "rt_effects this1 = rt_effects this @ n1"
      "\<forall>e\<in>set n1. hookCall (leaveCalls this nextMap) e"
      "\<forall>e\<in>set n1. \<not> isVeto e"
    by auto
  from beforeHooks_news [OF finish(2)] obtain n2 where
    n2: "rt_effects this2 = rt_effects this1 @ n2"
      "\<forall>e\<in>set n2. hookCall (enterCalls this nextMap) e"
      "\<forall>e\<in>set n2. \<not> isVeto e"
    by auto
  from afterHooks_news [OF finish(3)] obtain n3 where
    n3: "rt_effects this4 = rt_effects (commit this this2 nl nextMap) @ n3"
      "\<forall>e\<in>set n3. hookCall (afterCalls this nextMap) e"
    by blast
  have k12: "keeps this this2"
    using beforeHooks_keeps [OF finish(1)] beforeHooks_keeps [OF finish(2)] by (rule keeps_trans)
  have k4: "keeps (commit this this2 nl nextMap) this4" by (rule afterHooks_keeps [OF finish(3)])
  have l: "rt_location this' = Some nl" "rt_source this' = rt_matchingSource this"
    using k4 k12 finish(5) by (simp_all add: keeps_def commit_fields)
  obtain tl where tl: "rt_effects this' = rt_effects this4 @ tl" "\<forall>e\<in>set tl. isCommitEffect e"
    using finish(5) by (cases "rt_onChange this4") auto
  have e: "rt_effects this' = rt_effects this @ n1 @ n2 @ (updates this nextMap @ n3 @ tl)"
    using n1(1) n2(1) n3(1) tl(1) by (simp add: commit_effects)
  have u: "\<forall>e\<in>set (updates this nextMap @ n3 @ tl). isCommitEffect e \<or> hookCall (afterCalls this nextMap) e"
    using n3(2) tl(2) updates_commit by auto
  show ?thesis
    apply (rule exI [of _ n1], rule exI [of _ n2], rule exI [of _ "updates this nextMap @ n3 @ tl"])
    using e n1(2,3) n2(2,3) u l finish(4) by auto
qed

subsection \<open>The ways out of the processing of a location\<close>

lemma newEffects_append: "rt_effects this' = rt_effects this @ news \<Longrightarrow> newEffects this this' = news"
  by (simp add: newEffects_def)

lemma newEffects_same: "newEffects this this = []"
  by (simp add: newEffects_def)

lemma async_cases:
  assumes "asyncOnLocationChange env this nl = (c, this')"
  obtains
    (superseded) "c = Superseded" "this' = this"
  | (unchanged) "c = Unchanged" "this' = this"
  | (left) "c = LeftPrefix"
      "this' = (if rt_onLeave this then this\<lparr>rt_effects := rt_effects this @ [OnLeave (pathname nl)]\<rparr> else this)"
  | (failed) "c = Failed" "this' = this"
  | (change) matching where
      "matchLocation env this nl = Some matching"
      "changeRoutes env (this\<lparr>rt_matchingSource := matching\<rparr>) nl (rt_location this)
         (matchToMatchEntryMap matching) = (c, this')"
proof (cases "isNextLocationOutDated this nl")
  case True
  with assms show thesis by (intro superseded) (simp_all add: asyncOnLocationChange_def)
next
  case fresh: False
  show thesis
  proof (cases "case rt_location this of Some location \<Rightarrow> isLocationEqual location nl | None \<Rightarrow> False")
    case True
    with assms fresh show thesis by (intro unchanged) (simp_all add: asyncOnLocationChange_def)
  next
    case differs: False
    show thesis
    proof (cases "testPathPrefix (pathname nl) (rt_prefix this)")
      case False
      with assms fresh differs show thesis
        by (intro left) (simp_all add: asyncOnLocationChange_def)
    next
      case inside: True
      show thesis
      proof (cases "matchLocation env this nl")
        case None
        with assms fresh differs inside show thesis
          by (intro failed) (simp_all add: asyncOnLocationChange_def)
      next
        case (Some matching)
        with assms fresh differs inside show thesis
          by (intro change [of matching]) (simp_all add: asyncOnLocationChange_def)
      qed
    qed
  qed
qed

lemma isVeto_before: "isVeto e \<Longrightarrow> isBeforeHook e"
  by (cases e rule: isVeto.cases) auto

lemma hook_not_commit: "hookCall calls e \<Longrightarrow> \<not> isCommitEffect e"
  by (cases e) auto

lemma commit_not_veto: "isCommitEffect e \<Longrightarrow> \<not> isVeto e"
  by (cases e) auto

text \<open>
  The returns after the staleness test come before any assignment to the committed state.
\<close>

lemma abandoned_is_silent:
  assumes "asyncOnLocationChange env this nextLocation = (Abandoned, this')"
  shows "rt_location this' = rt_location this \<and> rt_source this' = rt_source this
    \<and> rt_nextLocation this' \<noteq> Some nextLocation
    \<and> rt_effects this' = rt_effects this @ newEffects this this'
    \<and> (\<forall>e\<in>set (newEffects this this'). isBeforeHook e)"
  using assms
proof (cases rule: async_cases)
  case (change matching)
  let ?start = "this\<lparr>rt_matchingSource := matching\<rparr>"
  from changeRoutes_decompose [OF change(2)] obtain n1 n2 n3 where
    d: "rt_effects this' = rt_effects ?start @ n1 @ n2 @ n3"
       "\<forall>e\<in>set n1. hookCall (leaveCalls ?start (matchToMatchEntryMap matching)) e"
       "\<forall>e\<in>set n2. hookCall (enterCalls ?start (matchToMatchEntryMap matching)) e"
       "n3 = []" "keeps ?start this'" "rt_nextLocation this' \<noteq> Some nextLocation"
    by auto
  have e: "rt_effects this' = rt_effects this @ (n1 @ n2)" using d(1,4) by simp
  have n: "newEffects this this' = n1 @ n2" by (rule newEffects_append [OF e])
  have b: "\<forall>e\<in>set (n1 @ n2). isBeforeHook e"
    using d(2,3) leaveCalls_before enterCalls_before by auto
  show ?thesis using d(5,6) e n b by (simp add: keeps_def)
qed simp_all

text \<open>
  What the staleness test sees: awaiting a hook leaves in \<^verbatim>\<open>_nextLocation\<close> the last
  location announced meanwhile, and a loop of before hooks that goes on has seen no newer
  location.
\<close>

lemma foldl_onLocationChange_next:
  "rt_nextLocation (foldl onLocationChange this ls)
     = (if ls = [] then rt_nextLocation this else Some (last ls))"
  by (induction ls arbitrary: this) (simp_all add: onLocationChange_def)

lemma awaitHook_next:
  "awaitHook env kind node this = (out, this') \<Longrightarrow>
     rt_nextLocation this'
       = (if arrivals out = [] then rt_nextLocation this else Some (last (arrivals out)))"
  by (auto simp: awaitHook_def Let_def foldl_onLocationChange_next)

lemma beforeHooks_prefix:
  "beforeHooks env nl calls this = (r, this') \<Longrightarrow>
     rt_effects this' = rt_effects this @ newEffects this this'"
  using beforeHooks_news [of env nl calls this r this']
  by (auto simp: newEffects_def)

lemma newEffects_step:
  assumes "rt_effects b = rt_effects a @ x" and "rt_effects c = rt_effects b @ newEffects b c"
  shows "newEffects a c = x @ newEffects b c"
proof -
  from assms(2) have "rt_effects c = rt_effects a @ x @ newEffects b c"
    unfolding assms(1) by simp
  then show ?thesis by (rule newEffects_append)
qed

lemma beforeHooks_stale:
  "beforeHooks env nl calls this = (r, this') \<Longrightarrow> rt_nextLocation this = Some nl \<Longrightarrow>
     (r \<noteq> Some Abandoned \<longrightarrow> (\<forall>e\<in>set (newEffects this this'). \<not> supersededAfter nl e))
     \<and> (r = None \<longrightarrow> rt_nextLocation this' = Some nl)"
proof (induction calls arbitrary: this)
  case Nil
  then show ?case by (simp add: newEffects_same)
next
  case (Cons call calls)
  obtain kind node where call: "call = (kind, node)" by (cases call)
  obtain out this1 where aw: "awaitHook env kind node this = (out, this1)"
    by (cases "awaitHook env kind node this")
  have e1: "rt_effects this1 = rt_effects this @ [Hook kind node out]"
    by (rule awaitHook_effects [OF aw])
  have n1: "rt_nextLocation this1 = (if arrivals out = [] then Some nl else Some (last (arrivals out)))"
    using awaitHook_next [OF aw] Cons.prems(2) by simp
  show ?case
  proof (cases out)
    case (Rejected ls)
    with Cons.prems(1) call aw have "r = Some Failed" "this' = this1" by simp_all
    with e1 Rejected show ?thesis by (simp add: newEffects_def)
  next
    case (Resolved result ls)
    show ?thesis
    proof (cases "isNextLocationOutDated this1 nl")
      case True
      with Cons.prems(1) call aw Resolved have "r = Some Abandoned" by simp
      then show ?thesis by simp
    next
      case False
      then have fresh: "rt_nextLocation this1 = Some nl"
        by (simp add: isNextLocationOutDated_def)
      with n1 Resolved have ns: "\<not> supersededAfter nl (Hook kind node out)"
        by (auto split: if_splits)
      show ?thesis
      proof (cases result)
        case True
        with Cons.prems(1) call aw Resolved False
        have rest: "beforeHooks env nl calls this1 = (r, this')" by simp
        have ne: "newEffects this this' = [Hook kind node out] @ newEffects this1 this'"
          by (rule newEffects_step [OF e1 beforeHooks_prefix [OF rest]])
        from Cons.IH [OF rest fresh] ns show ?thesis by (simp add: ne)
      next
        case f: False
        with Cons.prems(1) call aw Resolved False
        have r: "r = Some Reverted" "this' = revert this1" by simp_all
        have "newEffects this this' = [Hook kind node out, HistoryReplace (fallback this1)]"
          using r e1 by (simp add: newEffects_def revert_def fallback_def)
        with r ns show ?thesis by simp
      qed
    qed
  qed
qed

lemma afterCalls_not_before: "hookCall (afterCalls this nextMap) e \<Longrightarrow> \<not> isBeforeHook e"
  by (cases e) (auto simp: afterCalls_def split: if_splits)

lemma commit_not_before: "isCommitEffect e \<Longrightarrow> \<not> isBeforeHook e"
  by (cases e) auto

lemma changeRoutes_superseded:
  assumes cr: "changeRoutes env this nl location nextMap = (c, this')"
      and fresh: "rt_nextLocation this = Some nl"
      and obs: "\<exists>e\<in>set (newEffects this this'). isBeforeHook e \<and> supersededAfter nl e"
  shows "c = Abandoned"
  using cr
proof (cases rule: changeRoutes_cases)
  case leave
  from beforeHooks_stale [OF leave fresh] obs show ?thesis by auto
next
  case (enter this1)
  from beforeHooks_stale [OF enter(1) fresh]
  have s1: "\<forall>e\<in>set (newEffects this this1). \<not> supersededAfter nl e"
    and f1: "rt_nextLocation this1 = Some nl" by auto
  have ne: "newEffects this this' = newEffects this this1 @ newEffects this1 this'"
    by (rule newEffects_step [OF beforeHooks_prefix [OF enter(1)] beforeHooks_prefix [OF enter(2)]])
  from beforeHooks_stale [OF enter(2) f1] obs s1 show ?thesis unfolding ne by auto
next
  case (after this1 this2)
  from beforeHooks_stale [OF after(1) fresh]
  have s1: "\<forall>e\<in>set (newEffects this this1). \<not> supersededAfter nl e"
    and f1: "rt_nextLocation this1 = Some nl" by auto
  from beforeHooks_stale [OF after(2) f1]
  have s2: "\<forall>e\<in>set (newEffects this1 this2). \<not> supersededAfter nl e" by auto
  from afterHooks_news [OF after(3)] obtain n3 where
    n3: "rt_effects this' = rt_effects (commit this this2 nl nextMap) @ n3"
      "\<forall>e\<in>set n3. hookCall (afterCalls this nextMap) e"
    by blast
  have e: "rt_effects this' = rt_effects this @ newEffects this this1 @ newEffects this1 this2
      @ updates this nextMap @ n3"
    using beforeHooks_prefix [OF after(1)] beforeHooks_prefix [OF after(2)] n3(1)
    by (simp add: commit_effects)
  have ne: "newEffects this this' = newEffects this this1 @ newEffects this1 this2
      @ updates this nextMap @ n3"
    by (rule newEffects_append [OF e])
  have "\<forall>e\<in>set (updates this nextMap @ n3). \<not> isBeforeHook e"
    using n3(2) updates_commit commit_not_before afterCalls_not_before by auto
  with obs s1 s2 show ?thesis unfolding ne by auto
next
  case (finish this1 this2 this4)
  from beforeHooks_stale [OF finish(1) fresh]
  have s1: "\<forall>e\<in>set (newEffects this this1). \<not> supersededAfter nl e"
    and f1: "rt_nextLocation this1 = Some nl" by auto
  from beforeHooks_stale [OF finish(2) f1]
  have s2: "\<forall>e\<in>set (newEffects this1 this2). \<not> supersededAfter nl e" by auto
  from afterHooks_news [OF finish(3)] obtain n3 where
    n3: "rt_effects this4 = rt_effects (commit this this2 nl nextMap) @ n3"
      "\<forall>e\<in>set n3. hookCall (afterCalls this nextMap) e"
    by blast
  obtain tl where tl: "rt_effects this' = rt_effects this4 @ tl" "\<forall>e\<in>set tl. isCommitEffect e"
    using finish(5) by (cases "rt_onChange this4") auto
  have e: "rt_effects this' = rt_effects this @ newEffects this this1 @ newEffects this1 this2
      @ updates this nextMap @ n3 @ tl"
    using beforeHooks_prefix [OF finish(1)] beforeHooks_prefix [OF finish(2)] n3(1) tl(1)
    by (simp add: commit_effects)
  have ne: "newEffects this this' = newEffects this this1 @ newEffects this1 this2
      @ updates this nextMap @ n3 @ tl"
    by (rule newEffects_append [OF e])
  have "\<forall>e\<in>set (updates this nextMap @ n3 @ tl). \<not> isBeforeHook e"
    using n3(2) tl(2) updates_commit commit_not_before afterCalls_not_before by auto
  with obs s1 s2 show ?thesis unfolding ne by auto
qed

section \<open>The sources computed for a location\<close>

subsection \<open>Where the entries of the merged map come from\<close>

lemma set_update_cases:
  "(k', v') \<in> set (AList.update k v al) \<Longrightarrow> (k', v') = (k, v) \<or> (k', v') \<in> set al"
  by (induction al) (auto split: if_splits)

lemma matchGroup_accepts:
  assumes "(slot, chain) \<in> set (matchGroup env children acc info)"
  shows "(slot, chain) \<in> set acc
     \<or> (chain \<noteq> [] \<and> node_group (entry_match (hd chain)) = slot
         \<and> info = (fst info, slot) \<and> routerMatch (env_match env) children (fst info) = Some chain)"
proof (cases info)
  case (Pair path slot')
  show ?thesis
  proof (cases "routerMatch (env_match env) children path")
    case None
    with assms Pair show ?thesis by (simp add: matchGroup_def)
  next
    case (Some found)
    show ?thesis
    proof (cases found)
      case Nil
      with assms Pair Some show ?thesis by (simp add: matchGroup_def)
    next
      case (Cons first others)
      show ?thesis
      proof (cases "node_group (entry_match first) = slot'")
        case False
        with assms Pair Some Cons show ?thesis by (simp add: matchGroup_def)
      next
        case True
        with assms Pair Some Cons
        have "(slot, chain) \<in> set (AList.update slot' (first # others) acc)"
          by (simp add: matchGroup_def)
        from set_update_cases [OF this] True Pair Some Cons show ?thesis by auto
      qed
    qed
  qed
qed

lemma foldl_matchGroup_accepts:
  "(slot, chain) \<in> set (foldl (matchGroup env children) acc infos) \<Longrightarrow>
     (slot, chain) \<in> set acc
     \<or> (chain \<noteq> [] \<and> node_group (entry_match (hd chain)) = slot
         \<and> (\<exists>path. (path, slot) \<in> set infos \<and> routerMatch (env_match env) children path = Some chain))"
proof (induction infos arbitrary: acc)
  case Nil then show ?case by simp
next
  case (Cons info infos)
  from Cons.prems have "(slot, chain) \<in> set (foldl (matchGroup env children) (matchGroup env children acc info) infos)"
    by simp
  from Cons.IH [OF this] show ?case
  proof
    assume "(slot, chain) \<in> set (matchGroup env children acc info)"
    from matchGroup_accepts [OF this] show ?thesis
      by (metis list.set_intros(1))
  next
    assume "chain \<noteq> [] \<and> node_group (entry_match (hd chain)) = slot
         \<and> (\<exists>path. (path, slot) \<in> set infos \<and> routerMatch (env_match env) children path = Some chain)"
    then show ?thesis by auto
  qed
qed

lemma whitelisted_from:
  "whitelisted groups matches g2m acc = Some es \<Longrightarrow> e \<in> set es \<Longrightarrow>
     e \<in> set acc \<or> (\<exists>slot chain. (slot, chain) \<in> set g2m \<and> e \<in> set chain)"
proof (induction groups matches g2m acc rule: whitelisted.induct)
  case (1 groups matches matchEntries)
  then show ?case by simp
next
  case (2 groups matches slot rest matchEntries)
  then show ?case by simp
next
  case (3 groups matches slot first others rest matchEntries)
  show ?case
  proof (cases "slot = None \<or> slot = Some [] \<or> (case slot of Some name \<Rightarrow> name \<in> set groups | None \<Rightarrow> False)
         \<or> entry_match first \<in> set matches")
    case True
    with 3 have "e \<in> set (matchEntries @ first # others) \<or> (\<exists>slot chain. (slot, chain) \<in> set rest \<and> e \<in> set chain)"
      by simp
    then show ?thesis
    proof
      assume "e \<in> set (matchEntries @ first # others)"
      then have "e \<in> set matchEntries \<or> e \<in> set (first # others)" by auto
      then show ?thesis
      proof
        assume "e \<in> set matchEntries" then show ?thesis by blast
      next
        assume "e \<in> set (first # others)"
        moreover have "(slot, first # others) \<in> set ((slot, first # others) # rest)" by simp
        ultimately show ?thesis by blast
      qed
    next
      assume "\<exists>slot chain. (slot, chain) \<in> set rest \<and> e \<in> set chain"
      then obtain s c where "(s, c) \<in> set rest" "e \<in> set c" by blast
      then have "(s, c) \<in> set ((slot, first # others) # rest)" by simp
      with \<open>e \<in> set c\<close> show ?thesis by blast
    qed
  next
    case False
    with 3 have "e \<in> set matchEntries \<or> (\<exists>slot chain. (slot, chain) \<in> set rest \<and> e \<in> set chain)"
      by simp
    then show ?thesis by auto
  qed
qed

lemma keptEntries_from:
  assumes "keptEntries env g2m = Some es" and "e \<in> set es"
  shows "\<exists>slot chain. (slot, chain) \<in> set g2m \<and> e \<in> set chain"
proof (cases "map_of g2m None")
  case None
  with assms show ?thesis by (simp add: keptEntries_def)
next
  case (Some primaryEntries)
  show ?thesis
  proof (cases primaryEntries)
    case Nil
    with assms Some show ?thesis by (simp add: keptEntries_def)
  next
    case (Cons primary others)
    show ?thesis
    proof (cases "env_parallel env (entry_match primary)")
      case None
      with assms Some Cons have "e \<in> set (concat (map snd g2m))" by (simp add: keptEntries_def)
      then obtain p where "p \<in> set g2m" "e \<in> set (snd p)" by auto
      then have "(fst p, snd p) \<in> set g2m" by simp
      with \<open>e \<in> set (snd p)\<close> show ?thesis by blast
    next
      case (Some whitelist)
      with assms \<open>map_of g2m None = Some primaryEntries\<close> Cons
      have "whitelisted
                 (case par_groups whitelist of Some groups \<Rightarrow> groups | None \<Rightarrow> [])
                 (case par_matches whitelist of Some matches \<Rightarrow> matches | None \<Rightarrow> [])
                 g2m [] = Some es"
        by (simp add: keptEntries_def)
      from whitelisted_from [OF this assms(2)] show ?thesis by simp
    qed
  qed
qed

lemma foldl_entry_update_from:
  "(node, entry) \<in> set (foldl (\<lambda>entries entry. AList.update (entry_match entry) entry entries) acc es) \<Longrightarrow>
     (node, entry) \<in> set acc \<or> (entry \<in> set es \<and> node = entry_match entry)"
proof (induction es arbitrary: acc)
  case Nil then show ?case by simp
next
  case (Cons x xs)
  from Cons.prems have "(node, entry) \<in> set (foldl (\<lambda>entries entry. AList.update (entry_match entry) entry entries)
      (AList.update (entry_match x) x acc) xs)" by simp
  from Cons.IH [OF this] show ?case
    using set_update_cases [of node entry "entry_match x" x acc] by auto
qed

lemma toEntryMap_from:
  "(node, entry) \<in> set (toEntryMap es) \<Longrightarrow> entry \<in> set es \<and> node = entry_match entry"
  using foldl_entry_update_from [of node entry "[]" es] by (simp add: toEntryMap_def)


subsection \<open>Without a primary match\<close>

lemma extractGroupPath_infos:
  "\<exists>extra. fst (extractGroupPath acc name) = fst acc @ extra \<and> (\<forall>info\<in>set extra. snd info \<noteq> None)"
  by (cases acc) (auto simp: extractGroupPath_def Let_def split: option.splits)

lemma foldl_extractGroupPath_infos:
  "\<exists>extra. fst (foldl extractGroupPath acc names) = fst acc @ extra \<and> (\<forall>info\<in>set extra. snd info \<noteq> None)"
proof (induction names arbitrary: acc)
  case Nil show ?case by simp
next
  case (Cons name names)
  obtain x1 where x1: "fst (extractGroupPath acc name) = fst acc @ x1" "\<forall>info\<in>set x1. snd info \<noteq> None"
    using extractGroupPath_infos [of acc name] by blast
  obtain x2 where x2: "fst (foldl extractGroupPath (extractGroupPath acc name) names)
      = fst (extractGroupPath acc name) @ x2" "\<forall>info\<in>set x2. snd info \<noteq> None"
    using Cons [of "extractGroupPath acc name"] by blast
  have "fst (foldl extractGroupPath acc (name # names)) = fst acc @ (x1 @ x2)"
    using x1(1) x2(1) by simp
  moreover have "\<forall>info\<in>set (x1 @ x2). snd info \<noteq> None" using x1(2) x2(2) by auto
  ultimately show ?case by blast
qed

lemma matchGroup_other_slot:
  "snd info \<noteq> None \<Longrightarrow> map_of (matchGroup env children acc info) None = map_of acc None"
  by (cases info) (auto simp: matchGroup_def update_conv' split: option.splits list.splits)

lemma foldl_matchGroup_other_slots:
  "\<forall>info\<in>set infos. snd info \<noteq> None \<Longrightarrow>
     map_of (foldl (matchGroup env children) acc infos) None = map_of acc None"
  by (induction infos arbitrary: acc) (simp_all add: matchGroup_other_slot)

lemma no_primary_match:
  assumes "routerMatch (env_match env) (rt_children this) (pathWithoutPrefix this nextLocation) = None"
  shows "\<exists>query paths. matchLocation env this nextLocation =
           Some \<lparr>matchToMatchEntryMap = [], queryDict = query, pathDict = paths\<rparr>"
proof -
  obtain pathInfos paths query where x: "extractGroupPaths env this nextLocation = (pathInfos, paths, query)"
    by (cases "extractGroupPaths env this nextLocation")
  obtain extra where extra: "pathInfos = [(pathWithoutPrefix this nextLocation, None)] @ extra"
      "\<forall>info\<in>set extra. snd info \<noteq> None"
    using foldl_extractGroupPath_infos [of "([(pathWithoutPrefix this nextLocation, None)],
        [(''_'', pathWithoutPrefix this nextLocation)],
        parseQuery (env_searchParams env (search nextLocation)))" "rt_groups this"] x
    by (auto simp: extractGroupPaths_def Let_def)
  have first: "matchGroup env (rt_children this) [] (pathWithoutPrefix this nextLocation, None) = []"
    using assms by (simp add: matchGroup_def)
  have "map_of (groupToMatchEntries env this pathInfos) None = None"
    using foldl_matchGroup_other_slots [OF extra(2), of env "rt_children this" "[]"]
    by (simp add: groupToMatchEntries_def extra(1) first)
  then have "keptEntries env (groupToMatchEntries env this pathInfos) = Some []"
    by (simp add: keptEntries_def)
  then show ?thesis using x by (simp add: matchLocation_def toEntryMap_def)
qed

subsection \<open>The leaving set and the entering set\<close>

lemma set_leavingMatches:
  "set (leavingMatches previous nextSet) = set previous - set nextSet"
  unfolding leavingMatches_def
  by (induction nextSet arbitrary: previous) auto

lemma leavingMatches_Nil: "leavingMatches previous [] = previous"
  by (simp add: leavingMatches_def)

lemma enteringAndUpdatingMatches_Nil: "enteringAndUpdatingMatches source matching previous [] = []"
  unfolding enteringAndUpdatingMatches_def
  by (induction previous) (simp_all add: dropUnchanged_def)

lemma dropUnchanged_subset: "set (dropUnchanged source matchingSource acc node) \<subseteq> set acc"
  by (auto simp: dropUnchanged_def)

lemma foldl_dropUnchanged_subset:
  "set (foldl (dropUnchanged source matchingSource) acc previous) \<subseteq> set acc"
proof (induction previous arbitrary: acc)
  case Nil show ?case by simp
next
  case (Cons p ps)
  have "set (foldl (dropUnchanged source matchingSource) (dropUnchanged source matchingSource acc p) ps)
      \<subseteq> set (dropUnchanged source matchingSource acc p)"
    by (rule Cons)
  with dropUnchanged_subset [of source matchingSource acc p] show ?case by auto
qed

lemma entering_drops_untouched:
  assumes "node \<in> set previous" and "untouched source matchingSource node"
  shows "node \<notin> set (enteringAndUpdatingMatches source matchingSource previous nextSet)"
proof -
  have "node \<in> set previous \<Longrightarrow>
      node \<notin> set (foldl (dropUnchanged source matchingSource) acc previous)" for acc
  proof (induction previous arbitrary: acc)
    case Nil then show ?case by simp
  next
    case (Cons p ps)
    show ?case
    proof (cases "node = p")
      case True
      have "node \<notin> set (dropUnchanged source matchingSource acc p)"
        using True assms(2) by (simp add: untouched_def dropUnchanged_def)
      with foldl_dropUnchanged_subset [of source matchingSource "dropUnchanged source matchingSource acc p" ps]
      show ?thesis by auto
    next
      case False
      with Cons.prems have "node \<in> set ps" by simp
      from Cons.IH [OF this, of "dropUnchanged source matchingSource acc p"] show ?thesis by simp
    qed
  qed
  from this [OF assms(1)] show ?thesis by (simp add: enteringAndUpdatingMatches_def)
qed

section \<open>Properties of the navigation engine\<close>

text \<open>
  C8.  Whenever, during the processing of a location, a before hook (\<^verbatim>\<open>beforeLeave\<close>,
  \<^verbatim>\<open>beforeEnter\<close> or \<^verbatim>\<open>beforeUpdate\<close>) resolves after a newer location has been
  requested, whatever the hook's result, the processing is abandoned at the staleness
  test that follows the await (lines 382--384 and 399--401): the committed location and
  the committed source are what they were before the processing started, the latest
  requested location is not the one that was processed, and everything the router did
  in between was to await before hooks: it called neither \<^verbatim>\<open>history.replace\<close> nor
  \<^verbatim>\<open>_update\<close> on a node, nor an after hook, nor the change callback.
\<close>

theorem superseded_transition_is_abandoned_silently:
  assumes run: "asyncOnLocationChange env this nextLocation = (c, this')"
      and obs: "\<exists>e\<in>set (newEffects this this'). isBeforeHook e \<and> supersededAfter nextLocation e"
  shows "c = Abandoned
    \<and> rt_location this' = rt_location this \<and> rt_source this' = rt_source this
    \<and> rt_nextLocation this' \<noteq> Some nextLocation
    \<and> rt_effects this' = rt_effects this @ newEffects this this'
    \<and> (\<forall>e\<in>set (newEffects this this'). isBeforeHook e)"
proof -
  have fresh: "rt_nextLocation this = Some nextLocation"
  proof (rule ccontr)
    assume "rt_nextLocation this \<noteq> Some nextLocation"
    then have "isNextLocationOutDated this nextLocation"
      by (auto simp: isNextLocationOutDated_def)
    with run have "this' = this" by (simp add: asyncOnLocationChange_def)
    with obs show False by (simp add: newEffects_same)
  qed
  have c: "c = Abandoned"
    using run
  proof (cases rule: async_cases)
    case superseded with obs show ?thesis by (simp add: newEffects_same)
  next
    case unchanged with obs show ?thesis by (simp add: newEffects_same)
  next
    case left with obs show ?thesis by (auto simp: newEffects_def split: if_splits)
  next
    case failed with obs show ?thesis by (simp add: newEffects_same)
  next
    case (change matching)
    have fresh': "rt_nextLocation (this\<lparr>rt_matchingSource := matching\<rparr>) = Some nextLocation"
      using fresh by simp
    have "newEffects (this\<lparr>rt_matchingSource := matching\<rparr>) this' = newEffects this this'"
      by (simp add: newEffects_def)
    with obs have obs': "\<exists>e\<in>set (newEffects (this\<lparr>rt_matchingSource := matching\<rparr>) this').
        isBeforeHook e \<and> supersededAfter nextLocation e" by simp
    from changeRoutes_superseded [OF change(2) fresh' obs'] show ?thesis .
  qed
  with run have "asyncOnLocationChange env this nextLocation = (Abandoned, this')" by simp
  from abandoned_is_silent [OF this] c show ?thesis by simp
qed

text \<open>
  C1, as the code has it.  When a before hook resolves to a falsy result during the
  processing of a location, nothing is committed: the committed location and source
  stay as they were and no node is updated.  If the location is still the latest one
  requested, the processing ends by asking the history to replace the current location
  with the committed location, or with the default location when nothing is committed
  yet.  If a newer location has been requested meanwhile, the processing is abandoned
  and the history is not asked anything.
\<close>

theorem veto_keeps_committed_state_and_reverts_when_latest:
  assumes run: "asyncOnLocationChange env this nextLocation = (c, this')"
      and veto: "\<exists>e\<in>set (newEffects this this'). isVeto e"
  shows "rt_location this' = rt_location this \<and> rt_source this' = rt_source this
    \<and> rt_effects this' = rt_effects this @ newEffects this this'
    \<and> (\<forall>e\<in>set (newEffects this this'). isBeforeHook e \<or> e = HistoryReplace (fallback this))
    \<and> (rt_nextLocation this' = Some nextLocation \<longrightarrow>
          c = Reverted \<and> last (rt_effects this') = HistoryReplace (fallback this))
    \<and> (rt_nextLocation this' \<noteq> Some nextLocation \<longrightarrow>
          c = Abandoned \<and> HistoryReplace (fallback this) \<notin> set (newEffects this this'))"
  using run
proof (cases rule: async_cases)
  case superseded with veto show ?thesis by (simp add: newEffects_same)
next
  case unchanged with veto show ?thesis by (simp add: newEffects_same)
next
  case left with veto show ?thesis by (auto simp: newEffects_def split: if_splits)
next
  case failed with veto show ?thesis by (simp add: newEffects_same)
next
  case (change matching)
  let ?start = "this\<lparr>rt_matchingSource := matching\<rparr>"
  let ?nextMap = "matchToMatchEntryMap matching"
  have fb: "fallback ?start = fallback this" by (simp add: fallback_def split: option.splits)
  from changeRoutes_decompose [OF change(2)] obtain n1 n2 n3 where
    e: "rt_effects this' = rt_effects this @ n1 @ n2 @ n3" and
    h1: "\<forall>e\<in>set n1. hookCall (leaveCalls ?start ?nextMap) e \<or> (c = Reverted \<and> e = HistoryReplace (fallback this))" and
    h2: "\<forall>e\<in>set n2. hookCall (enterCalls ?start ?nextMap) e \<or> (c = Reverted \<and> e = HistoryReplace (fallback this))" and
    h3: "\<forall>e\<in>set n3. isCommitEffect e \<or> hookCall (afterCalls ?start ?nextMap) e" and
    nv: "c \<noteq> Abandoned \<and> c \<noteq> Reverted \<longrightarrow> (\<forall>e\<in>set (n1 @ n2). \<not> isVeto e)" and
    st: "c = Abandoned \<or> c = Reverted \<longrightarrow> n3 = [] \<and> keeps ?start this'" and
    ab: "c = Abandoned \<longrightarrow> rt_nextLocation this' \<noteq> Some nextLocation" and
    rv: "c = Reverted \<longrightarrow> n1 @ n2 \<noteq> [] \<and> last (n1 @ n2) = HistoryReplace (fallback this)" and
    rn: "c = Reverted \<longrightarrow> rt_nextLocation this' = Some nextLocation"
    unfolding fb by auto
  have n: "newEffects this this' = n1 @ n2 @ n3" using e by (simp add: newEffects_def)
  have v3: "\<forall>e\<in>set n3. \<not> isVeto e" using h3 commit_not_veto afterCalls_not_veto by blast
  have c: "c = Abandoned \<or> c = Reverted" using veto nv v3 unfolding n by auto
  with st have n3: "n3 = []" and k: "keeps ?start this'" by auto
  have b: "\<forall>e\<in>set (n1 @ n2). isBeforeHook e \<or> e = HistoryReplace (fallback this)"
    using h1 h2 leaveCalls_before enterCalls_before by auto
  have a: "c = Abandoned \<longrightarrow> HistoryReplace (fallback this) \<notin> set (n1 @ n2)"
    using h1 h2 by auto
  have l: "c = Reverted \<longrightarrow> last (rt_effects this') = HistoryReplace (fallback this)"
    using rv e n3 by auto
  show ?thesis using c k e n n3 b a l ab rn by (auto simp: keeps_def)
qed

text \<open>
  C3.  A location that is structurally equal to the committed one is not processed:
  \<^verbatim>\<open>_asyncOnLocationChange\<close> returns the router as it was, so no hook is awaited, no
  node is updated and neither source changes.  Announced to an idle router, such a
  location only becomes the latest location requested.
\<close>

theorem same_location_is_ignored:
  assumes "rt_location this = Some location" and "isLocationEqual location nextLocation"
  shows "asyncOnLocationChange env this nextLocation =
           (if isNextLocationOutDated this nextLocation then Superseded else Unchanged, this)
    \<and> (rt_changing this = [] \<longrightarrow>
          navigate env this nextLocation = (Some Unchanged, this\<lparr>rt_nextLocation := Some nextLocation\<rparr>))"
  using assms
  by (simp add: asyncOnLocationChange_def navigate_def runChanging_def onLocationChange_def
        isNextLocationOutDated_def)

text \<open>
  C6, as the code has it.  Every entry of the merged map computed for a location belongs
  to a chain that \<^verbatim>\<open>Router._match\<close> returned for the path of some slot (the primary
  slot, whose group is \<^verbatim>\<open>undefined\<close>, or a group named in the query), and the group of
  the \<^emph>\<open>first\<close> node of that chain, the top-level one, is the group of the slot.  A chain
  whose top-level node has another group is not stored for the slot.
\<close>

theorem kept_chain_starts_in_its_slot:
  assumes "matchLocation env this nextLocation = Some matching"
      and "(node, entry) \<in> set (matchToMatchEntryMap matching)"
  shows "\<exists>path slot chain.
           (path, slot) \<in> set (fst (extractGroupPaths env this nextLocation))
         \<and> routerMatch (env_match env) (rt_children this) path = Some chain
         \<and> chain \<noteq> [] \<and> node_group (entry_match (hd chain)) = slot
         \<and> entry \<in> set chain \<and> node = entry_match entry"
proof -
  obtain pathInfos paths query where x: "extractGroupPaths env this nextLocation = (pathInfos, paths, query)"
    by (cases "extractGroupPaths env this nextLocation")
  from assms(1) x obtain es where
    k: "keptEntries env (groupToMatchEntries env this pathInfos) = Some es" and
    m: "matchToMatchEntryMap matching = toEntryMap es"
    by (auto simp: matchLocation_def split: option.splits)
  from assms(2) m have e: "entry \<in> set es" "node = entry_match entry"
    using toEntryMap_from by auto
  from keptEntries_from [OF k e(1)] obtain slot chain where
    s: "(slot, chain) \<in> set (groupToMatchEntries env this pathInfos)" "entry \<in> set chain"
    by blast
  from s(1) have "(slot, chain) \<in> set (foldl (matchGroup env (rt_children this)) [] pathInfos)"
    by (simp add: groupToMatchEntries_def)
  from foldl_matchGroup_accepts [OF this] obtain path where
    "chain \<noteq> []" "node_group (entry_match (hd chain)) = slot" "(path, slot) \<in> set pathInfos"
    "routerMatch (env_match env) (rt_children this) path = Some chain"
    by auto
  with s(2) e(2) x show ?thesis by auto
qed

text \<open>
  C10.  When the primary path, the pathname without the prefix, matches no chain of the
  tree, the map of matched entries computed for the location is empty, whatever the
  group paths of the query match.  With this map every node matched before is leaving
  and none is entering or updating, and a processing that runs to its end commits the
  empty map.
\<close>

theorem unmatched_primary_path_empties_next_state:
  assumes "routerMatch (env_match env) (rt_children this) (pathWithoutPrefix this nextLocation) = None"
  shows "\<exists>query paths.
           matchLocation env this nextLocation
             = Some \<lparr>matchToMatchEntryMap = [], queryDict = query, pathDict = paths\<rparr>
         \<and> reversedLeavingMatches this [] = rev (previousMatchSet this)
         \<and> enteringAndUpdatingMatchSet this [] = []
         \<and> (\<forall>this'. asyncOnLocationChange env this nextLocation = (Changed, this') \<longrightarrow>
               rt_location this' = Some nextLocation
             \<and> rt_source this' = \<lparr>matchToMatchEntryMap = [], queryDict = query, pathDict = paths\<rparr>)"
proof -
  from no_primary_match [OF assms] obtain query paths where
    m: "matchLocation env this nextLocation
          = Some \<lparr>matchToMatchEntryMap = [], queryDict = query, pathDict = paths\<rparr>"
    by blast
  have l: "reversedLeavingMatches this [] = rev (previousMatchSet this)"
    by (simp add: reversedLeavingMatches_def leavingMatches_Nil)
  have e: "enteringAndUpdatingMatchSet this [] = []"
    by (simp add: enteringAndUpdatingMatchSet_def enteringAndUpdatingMatches_Nil)
  have c: "rt_location this' = Some nextLocation
      \<and> rt_source this' = \<lparr>matchToMatchEntryMap = [], queryDict = query, pathDict = paths\<rparr>"
    if run: "asyncOnLocationChange env this nextLocation = (Changed, this')" for this'
    using run
  proof (cases rule: async_cases)
    case (change matching)
    with m have mm: "matching = \<lparr>matchToMatchEntryMap = [], queryDict = query, pathDict = paths\<rparr>"
      by simp
    from changeRoutes_decompose [OF change(2)]
    have "rt_location this' = Some nextLocation"
      "rt_source this' = rt_matchingSource (this\<lparr>rt_matchingSource := matching\<rparr>)"
      by auto
    with mm show ?thesis by simp
  qed simp_all
  from m l e c show ?thesis by blast
qed

section \<open>The examples, evaluated\<close>

lemmas engine_defs = newRouter_def buildGroups_def navigate_def runChanging_def onLocationChange_def
  asyncOnLocationChange_def isNextLocationOutDated_def isLocationEqual_def testPathPrefix_def
  matchLocation_def extractGroupPaths_def pathWithoutPrefix_def parseQuery_def extractGroupPath_def
  groupToMatchEntries_def matchGroup_def keptEntries_def toEntryMap_def changeRoutes_def
  previousMatchSet_def reversedLeavingMatches_def enteringAndUpdatingMatchSet_def leaveCalls_def
  enterCalls_def afterCalls_def updates_def commit_def leavingMatches_def
  enteringAndUpdatingMatches_def dropUnchanged_def isShallowlyEqual_def pathSegments_def
  segmentOf_def exactOf_def awaitHook_def revert_def matchNode_def matchSegment_def noMatch_def isPathPrefix_def
  dictGet_def Let_def

lemmas about_defs = rootLocation_def noOptions_def plainEnv_def allowAll_def vetoAll_def
  aboutSchema_def aboutRoute_def toAbout_def toElsewhere_def aboutRequested_def
  vetoWhileSuperseded_def allowWhileSuperseded_def aboutMatching_def aboutVetoed_def
  aboutSuperseded_def toAboutAgain_def aboutCommitted_def

lemmas exact_defs = rootLocation_def noOptions_def plainEnv_def allowAll_def exactSchema_def
  nestedNode_def parentNode_def exactRouter_def toNested_def toParent_def toParentAgain_def
  nestedSource_def parentSource_def atNested_def atParent_def atParentAgain_def

lemmas popup_defs = rootLocation_def noOptions_def plainEnv_def popupSchema_def homeRoute_def
  sideRoute_def popupEnv_def toNowhereWithPopup_def toHomeWithPopup_def popupRouter_def
  toHome_def homeSource_def popupAtHome_def nowhereSource_def popupAtNowhere_def
  homeWithPopupSource_def

lemmas override_defs = rootLocation_def noOptions_def plainEnv_def allowAll_def overrideSchema_def
  overrideB_def overrideA_def overrideRouter_def toAB_def overrideSource_def

text \<open>
  C9.  With the schema \<^verbatim>\<open>{parent: {$exact: true, $children: {nested: true}}}\<close> and
  hooks that allow, going to \<^verbatim>\<open>/parent/nested\<close> awaits \<^verbatim>\<open>beforeEnter\<close> of
  \<^verbatim>\<open>parent\<close> and no \<^verbatim>\<open>beforeUpdate\<close>; going on to \<^verbatim>\<open>/parent\<close> awaits
  \<^verbatim>\<open>beforeUpdate\<close> of \<^verbatim>\<open>parent\<close> once, because its exactness changes.  In
  general a node that is in the committed set and in the next set, with the same
  captured segments and the same exactness in both sources, has none of its hooks
  awaited while the location is processed.
\<close>

theorem untouched_node_gets_no_hook:
  "navigate allowAll exactRouter toNested = (Some Changed, atNested)
   \<and> rt_effects atNested =
       [Hook BeforeEnter parentNode (Resolved True []), Hook BeforeEnter nestedNode (Resolved True []),
        Update parentNode True False, Update nestedNode True True,
        Hook AfterEnter parentNode (Resolved True []), Hook AfterEnter nestedNode (Resolved True [])]
   \<and> navigate allowAll atNested toParent = (Some Changed, atParent)
   \<and> newEffects atNested atParent =
       [Hook BeforeLeave nestedNode (Resolved True []), Hook BeforeUpdate parentNode (Resolved True []),
        Update nestedNode False False, Update parentNode True True,
        Hook AfterLeave nestedNode (Resolved True []), Hook AfterUpdate parentNode (Resolved True [])]
   \<and> (asyncOnLocationChange env this nextLocation = (c, this')
        \<and> matchLocation env this nextLocation = Some matching
        \<and> node \<in> set (previousMatchSet this)
        \<and> node \<in> fst ` set (matchToMatchEntryMap matching)
        \<and> untouched (rt_source this) matching node
        \<longrightarrow> (\<forall>e\<in>set (newEffects this this'). hookNode e \<noteq> Some node))"
proof -
  have s1: "navigate allowAll exactRouter toNested = (Some Changed, atNested)"
    by (simp add: engine_defs exact_defs)
  have s2: "navigate allowAll atNested toParent = (Some Changed, atParent)"
    by (simp add: engine_defs exact_defs)
  have e1: "rt_effects atNested =
       [Hook BeforeEnter parentNode (Resolved True []), Hook BeforeEnter nestedNode (Resolved True []),
        Update parentNode True False, Update nestedNode True True,
        Hook AfterEnter parentNode (Resolved True []), Hook AfterEnter nestedNode (Resolved True [])]"
    by (simp add: atNested_def)
  have e2: "newEffects atNested atParent =
       [Hook BeforeLeave nestedNode (Resolved True []), Hook BeforeUpdate parentNode (Resolved True []),
        Update nestedNode False False, Update parentNode True True,
        Hook AfterLeave nestedNode (Resolved True []), Hook AfterUpdate parentNode (Resolved True [])]"
    by (simp add: newEffects_def atParent_def e1)
  have g: "\<forall>e\<in>set (newEffects this this'). hookNode e \<noteq> Some node"
    if run: "asyncOnLocationChange env this nextLocation = (c, this')"
      and m: "matchLocation env this nextLocation = Some matching"
      and p: "node \<in> set (previousMatchSet this)"
      and n: "node \<in> fst ` set (matchToMatchEntryMap matching)"
      and u: "untouched (rt_source this) matching node"
    using run
  proof (cases rule: async_cases)
    case superseded then show ?thesis by (simp add: newEffects_same)
  next
    case unchanged then show ?thesis by (simp add: newEffects_same)
  next
    case left then show ?thesis by (auto simp: newEffects_def split: if_splits)
  next
    case failed then show ?thesis by (simp add: newEffects_same)
  next
    case (change matching')
    with m have mm: "matching' = matching" by simp
    let ?start = "this\<lparr>rt_matchingSource := matching\<rparr>"
    let ?nextMap = "matchToMatchEntryMap matching"
    have ps: "previousMatchSet ?start = previousMatchSet this" by (simp add: previousMatchSet_def)
    have nl: "node \<notin> set (reversedLeavingMatches ?start ?nextMap)"
      using n by (simp add: reversedLeavingMatches_def set_leavingMatches)
    have ne: "node \<notin> set (enteringAndUpdatingMatchSet ?start ?nextMap)"
      using entering_drops_untouched [OF p, of "rt_source this" matching "map fst ?nextMap"] u
      by (simp add: enteringAndUpdatingMatchSet_def ps)
    from changeRoutes_decompose [OF change(2) [unfolded mm]] obtain n1 n2 n3 where
      e: "rt_effects this' = rt_effects this @ n1 @ n2 @ n3" and
      h1: "\<forall>e\<in>set n1. hookCall (leaveCalls ?start ?nextMap) e \<or> (c = Reverted \<and> e = HistoryReplace (fallback ?start))" and
      h2: "\<forall>e\<in>set n2. hookCall (enterCalls ?start ?nextMap) e \<or> (c = Reverted \<and> e = HistoryReplace (fallback ?start))" and
      h3: "\<forall>e\<in>set n3. isCommitEffect e \<or> hookCall (afterCalls ?start ?nextMap) e"
      by auto
    have news: "newEffects this this' = n1 @ n2 @ n3" using e by (simp add: newEffects_def)
    have "hookNode x \<noteq> Some node" if "x \<in> set (n1 @ n2 @ n3)" for x
    proof -
      from that h1 h2 h3 consider
        "hookCall (leaveCalls ?start ?nextMap) x" | "hookCall (enterCalls ?start ?nextMap) x"
        | "hookCall (afterCalls ?start ?nextMap) x" | "isCommitEffect x" | "x = HistoryReplace (fallback ?start)"
        by auto
      then show ?thesis
      proof cases
        case 1 from leaveCalls_node [OF this] nl show ?thesis by auto
      next
        case 2 from enterCalls_node [OF this] ne show ?thesis by auto
      next
        case 3 from afterCalls_node [OF this] nl ne show ?thesis by auto
      next
        case 4 then show ?thesis by (cases x) simp_all
      next
        case 5 then show ?thesis by simp
      qed
    qed
    with news show ?thesis by simp
  qed
  from s1 e1 s2 e2 g show ?thesis by blast
qed

section \<open>The statements at concrete inputs\<close>

lemma about_vetoed:
  "asyncOnLocationChange vetoAll aboutRequested toAbout = (Reverted, aboutVetoed)"
  by (simp add: engine_defs about_defs)

lemma about_superseded_veto:
  "asyncOnLocationChange vetoWhileSuperseded aboutRequested toAbout = (Abandoned, aboutSuperseded False)"
  by (simp add: engine_defs about_defs)

lemma about_superseded_allow:
  "asyncOnLocationChange allowWhileSuperseded aboutRequested toAbout = (Abandoned, aboutSuperseded True)"
  by (simp add: engine_defs about_defs)

lemma about_committed:
  "asyncOnLocationChange allowAll aboutRequested toAbout = (Changed, aboutCommitted)"
  by (simp add: engine_defs about_defs)

text \<open>
  C1 at a veto without a newer location: \<^verbatim>\<open>/about\<close> is requested of a fresh router
  and \<^verbatim>\<open>beforeEnter\<close> of \<^verbatim>\<open>about\<close> resolves to false.  Nothing is committed and the
  history is asked to go to the default location \<^verbatim>\<open>/\<close>.
\<close>

theorem veto_keeps_committed_state_and_reverts_when_latest_witness:
  "asyncOnLocationChange vetoAll aboutRequested toAbout = (Reverted, aboutVetoed)
   \<and> isVeto (Hook BeforeEnter aboutRoute (Resolved False []))
   \<and> newEffects aboutRequested aboutVetoed
       = [Hook BeforeEnter aboutRoute (Resolved False []), HistoryReplace rootLocation]
   \<and> rt_nextLocation aboutVetoed = Some toAbout
   \<and> rt_location aboutVetoed = None
   \<and> rt_source aboutVetoed = rt_source aboutRequested
   \<and> last (rt_effects aboutVetoed) = HistoryReplace (fallback aboutRequested)"
proof -
  have n: "newEffects aboutRequested aboutVetoed
       = [Hook BeforeEnter aboutRoute (Resolved False []), HistoryReplace rootLocation]"
    by (simp add: newEffects_def engine_defs about_defs)
  have v: "\<exists>e\<in>set (newEffects aboutRequested aboutVetoed). isVeto e"
    by (simp add: n)
  have l: "rt_nextLocation aboutVetoed = Some toAbout" "rt_location aboutRequested = None"
    by (simp_all add: engine_defs about_defs)
  show ?thesis
    using veto_keeps_committed_state_and_reverts_when_latest [OF about_vetoed v] about_vetoed n l
    by simp
qed

text \<open>
  C1 as stated fails when a newer location is requested while the hook is awaited:
  \<^verbatim>\<open>beforeEnter\<close> of \<^verbatim>\<open>about\<close> resolves to false while \<^verbatim>\<open>/elsewhere\<close> arrives.
  The processing ends with the hook as its only effect: the history is not asked to
  replace anything.
\<close>

theorem veto_without_revert_when_superseded:
  "asyncOnLocationChange vetoWhileSuperseded aboutRequested toAbout = (Abandoned, aboutSuperseded False)
   \<and> rt_effects aboutRequested = []
   \<and> rt_effects (aboutSuperseded False) = [Hook BeforeEnter aboutRoute (Resolved False [toElsewhere])]
   \<and> isVeto (Hook BeforeEnter aboutRoute (Resolved False [toElsewhere]))"
  using about_superseded_veto
  by (simp add: aboutSuperseded_def aboutRequested_def newRouter_def Let_def)

text \<open>
  C8 at a concrete run: \<^verbatim>\<open>beforeEnter\<close> of \<^verbatim>\<open>about\<close> allows, but \<^verbatim>\<open>/elsewhere\<close> has
  arrived meanwhile.  The processing of \<^verbatim>\<open>/about\<close> is abandoned with nothing committed.
\<close>

theorem superseded_transition_is_abandoned_silently_witness:
  "asyncOnLocationChange allowWhileSuperseded aboutRequested toAbout = (Abandoned, aboutSuperseded True)
   \<and> newEffects aboutRequested (aboutSuperseded True)
       = [Hook BeforeEnter aboutRoute (Resolved True [toElsewhere])]
   \<and> isBeforeHook (Hook BeforeEnter aboutRoute (Resolved True [toElsewhere]))
   \<and> supersededAfter toAbout (Hook BeforeEnter aboutRoute (Resolved True [toElsewhere]))
   \<and> rt_location (aboutSuperseded True) = rt_location aboutRequested
   \<and> rt_source (aboutSuperseded True) = rt_source aboutRequested
   \<and> rt_nextLocation (aboutSuperseded True) = Some toElsewhere"
proof -
  have n: "newEffects aboutRequested (aboutSuperseded True)
       = [Hook BeforeEnter aboutRoute (Resolved True [toElsewhere])]"
    by (simp add: newEffects_def engine_defs about_defs)
  have s: "supersededAfter toAbout (Hook BeforeEnter aboutRoute (Resolved True [toElsewhere]))"
    by (simp add: toAbout_def toElsewhere_def)
  have l: "rt_nextLocation (aboutSuperseded True) = Some toElsewhere"
    by (simp add: aboutSuperseded_def)
  show ?thesis
    using superseded_transition_is_abandoned_silently [OF about_superseded_allow]
      about_superseded_allow n s l
    by simp
qed

text \<open>
  C3 at a concrete run: \<^verbatim>\<open>/about\<close> is committed and \<^verbatim>\<open>/about\<close> is announced again,
  as a new location object.
\<close>

theorem same_location_is_ignored_witness:
  "rt_location aboutCommitted = Some toAbout \<and> isLocationEqual toAbout toAboutAgain
   \<and> asyncOnLocationChange allowAll aboutCommitted toAboutAgain = (Superseded, aboutCommitted)
   \<and> navigate allowAll aboutCommitted toAboutAgain
       = (Some Unchanged, aboutCommitted\<lparr>rt_nextLocation := Some toAboutAgain\<rparr>)"
proof -
  have h: "rt_location aboutCommitted = Some toAbout" "isLocationEqual toAbout toAboutAgain"
    by (simp_all add: aboutCommitted_def isLocationEqual_def toAbout_def toAboutAgain_def)
  have o: "isNextLocationOutDated aboutCommitted toAboutAgain" "rt_changing aboutCommitted = []"
    by (simp_all add: isNextLocationOutDated_def engine_defs about_defs)
  show ?thesis
    using same_location_is_ignored [OF h, of allowAll] h o
    by simp
qed

lemma popup_at_home: "navigate popupEnv popupRouter toHome = (Some Changed, popupAtHome)"
  by (simp add: engine_defs popup_defs)

lemma popup_at_nowhere:
  "asyncOnLocationChange popupEnv (popupAtHome\<lparr>rt_nextLocation := Some toNowhereWithPopup\<rparr>)
     toNowhereWithPopup = (Changed, popupAtNowhere)"
  by (simp add: engine_defs popup_defs)

lemma popup_home_with_popup:
  "matchLocation popupEnv popupRouter toHomeWithPopup = Some homeWithPopupSource"
  by (simp add: engine_defs popup_defs)

text \<open>
  C6 at a concrete location: \<^verbatim>\<open>/home?_popup=/side\<close>.  The entry of \<^verbatim>\<open>side\<close> is kept
  for the slot \<^verbatim>\<open>popup\<close>, the group of \<^verbatim>\<open>side\<close>.
\<close>

theorem kept_chain_starts_in_its_slot_witness:
  "matchLocation popupEnv popupRouter toHomeWithPopup = Some homeWithPopupSource
   \<and> (sideRoute, \<lparr>entry_match = sideRoute, entry_segment = Some ''side'', entry_exact = True\<rparr>)
        \<in> set (matchToMatchEntryMap homeWithPopupSource)
   \<and> (\<exists>path slot chain.
           (path, slot) \<in> set (fst (extractGroupPaths popupEnv popupRouter toHomeWithPopup))
         \<and> routerMatch (env_match popupEnv) (rt_children popupRouter) path = Some chain
         \<and> chain \<noteq> [] \<and> node_group (entry_match (hd chain)) = slot
         \<and> \<lparr>entry_match = sideRoute, entry_segment = Some ''side'', entry_exact = True\<rparr> \<in> set chain
         \<and> sideRoute = entry_match \<lparr>entry_match = sideRoute, entry_segment = Some ''side'', entry_exact = True\<rparr>)"
proof -
  have h: "(sideRoute, \<lparr>entry_match = sideRoute, entry_segment = Some ''side'', entry_exact = True\<rparr>)
        \<in> set (matchToMatchEntryMap homeWithPopupSource)"
    by (simp add: homeWithPopupSource_def)
  show ?thesis
    using kept_chain_starts_in_its_slot [OF popup_home_with_popup h] popup_home_with_popup h
    by blast
qed

text \<open>
  C6 as stated fails where a child overrides the group of its parent: for \<^verbatim>\<open>/a/b\<close>
  the only slot is the primary one, the chain ends in the leaf \<^verbatim>\<open>b\<close> of group
  \<^verbatim>\<open>g\<close>, and the chain is kept, because the top-level node \<^verbatim>\<open>a\<close> has no group.
\<close>

theorem chain_kept_though_leaf_group_differs:
  "build id None [] overrideSchema = [overrideA]
   \<and> fst (extractGroupPaths allowAll overrideRouter toAB) = [(''/a/b'', None)]
   \<and> matchLocation allowAll overrideRouter toAB = Some overrideSource
   \<and> map fst (matchToMatchEntryMap overrideSource) = [overrideA, overrideB]
   \<and> node_group overrideA = None \<and> node_group overrideB = Some ''g''"
  by (simp add: engine_defs override_defs)

text \<open>
  C10 at a concrete run: \<^verbatim>\<open>/home\<close> is committed and \<^verbatim>\<open>/nowhere?_popup=/side\<close> is
  requested.  The group path matches \<^verbatim>\<open>side\<close>, the primary path matches nothing;
  \<^verbatim>\<open>home\<close> leaves and the committed map is empty.
\<close>

theorem unmatched_primary_path_empties_next_state_witness:
  "routerMatch (env_match popupEnv) (rt_children (popupAtHome\<lparr>rt_nextLocation := Some toNowhereWithPopup\<rparr>))
       (pathWithoutPrefix (popupAtHome\<lparr>rt_nextLocation := Some toNowhereWithPopup\<rparr>) toNowhereWithPopup)
     = None
   \<and> routerMatch (env_match popupEnv) (rt_children popupAtHome) ''/side''
       = Some [\<lparr>entry_match = sideRoute, entry_segment = Some ''side'', entry_exact = True\<rparr>]
   \<and> fst (extractGroupPaths popupEnv popupAtHome toNowhereWithPopup)
       = [(''/nowhere'', None), (''/side'', Some ''popup'')]
   \<and> previousMatchSet popupAtHome = [homeRoute]
   \<and> asyncOnLocationChange popupEnv (popupAtHome\<lparr>rt_nextLocation := Some toNowhereWithPopup\<rparr>)
        toNowhereWithPopup = (Changed, popupAtNowhere)
   \<and> matchToMatchEntryMap (rt_source popupAtNowhere) = []
   \<and> newEffects popupAtHome popupAtNowhere
       = [Hook BeforeLeave homeRoute (Resolved True []), Update homeRoute False False,
          Hook AfterLeave homeRoute (Resolved True [])]"
proof -
  have h: "routerMatch (env_match popupEnv)
       (rt_children (popupAtHome\<lparr>rt_nextLocation := Some toNowhereWithPopup\<rparr>))
       (pathWithoutPrefix (popupAtHome\<lparr>rt_nextLocation := Some toNowhereWithPopup\<rparr>) toNowhereWithPopup)
     = None"
    by (simp add: engine_defs popup_defs)
  have s: "routerMatch (env_match popupEnv) (rt_children popupAtHome) ''/side''
       = Some [\<lparr>entry_match = sideRoute, entry_segment = Some ''side'', entry_exact = True\<rparr>]"
    by (simp add: engine_defs popup_defs)
  have x: "fst (extractGroupPaths popupEnv popupAtHome toNowhereWithPopup)
       = [(''/nowhere'', None), (''/side'', Some ''popup'')]"
    by (simp add: engine_defs popup_defs)
  have p: "previousMatchSet popupAtHome = [homeRoute]"
    by (simp add: previousMatchSet_def popupAtHome_def homeSource_def)
  have n: "newEffects popupAtHome popupAtNowhere
       = [Hook BeforeLeave homeRoute (Resolved True []), Update homeRoute False False,
          Hook AfterLeave homeRoute (Resolved True [])]"
    by (simp add: newEffects_def popupAtNowhere_def)
  have e: "matchToMatchEntryMap (rt_source popupAtNowhere) = []"
    by (simp add: popupAtNowhere_def nowhereSource_def)
  show ?thesis
    using unmatched_primary_path_empties_next_state [OF h] h s x p popup_at_nowhere n e
    by simp
qed

lemma at_parent_again:
  "asyncOnLocationChange allowAll (atParent\<lparr>rt_nextLocation := Some toParentAgain\<rparr>) toParentAgain
     = (Changed, atParentAgain)"
  by (simp add: engine_defs exact_defs)

lemma match_parent_again:
  "matchLocation allowAll (atParent\<lparr>rt_nextLocation := Some toParentAgain\<rparr>) toParentAgain
     = Some parentSource"
  by (simp add: engine_defs exact_defs)

text \<open>
  C9 at a concrete run: \<^verbatim>\<open>/parent\<close> is committed and \<^verbatim>\<open>/parent?tab=1\<close> is
  requested.  \<^verbatim>\<open>parent\<close> stays matched and exact with the same segment: it is updated,
  and none of its hooks is awaited.
\<close>

theorem untouched_node_gets_no_hook_witness:
  "asyncOnLocationChange allowAll (atParent\<lparr>rt_nextLocation := Some toParentAgain\<rparr>) toParentAgain
     = (Changed, atParentAgain)
   \<and> matchLocation allowAll (atParent\<lparr>rt_nextLocation := Some toParentAgain\<rparr>) toParentAgain
       = Some parentSource
   \<and> parentNode \<in> set (previousMatchSet (atParent\<lparr>rt_nextLocation := Some toParentAgain\<rparr>))
   \<and> parentNode \<in> fst ` set (matchToMatchEntryMap parentSource)
   \<and> untouched (rt_source (atParent\<lparr>rt_nextLocation := Some toParentAgain\<rparr>)) parentSource parentNode
   \<and> newEffects (atParent\<lparr>rt_nextLocation := Some toParentAgain\<rparr>) atParentAgain
       = [Update parentNode True True]
   \<and> hookNode (Update parentNode True True) \<noteq> Some parentNode"
proof -
  have p: "parentNode \<in> set (previousMatchSet (atParent\<lparr>rt_nextLocation := Some toParentAgain\<rparr>))"
    by (simp add: previousMatchSet_def atParent_def parentSource_def)
  have n: "parentNode \<in> fst ` set (matchToMatchEntryMap parentSource)"
    by (simp add: parentSource_def)
  have u: "untouched (rt_source (atParent\<lparr>rt_nextLocation := Some toParentAgain\<rparr>)) parentSource parentNode"
    by (simp add: untouched_def isShallowlyEqual_def atParent_def pathSegments_def segmentOf_def
          parentSource_def parentNode_def nestedNode_def)
  have e: "newEffects (atParent\<lparr>rt_nextLocation := Some toParentAgain\<rparr>) atParentAgain
       = [Update parentNode True True]"
    by (simp add: newEffects_def atParentAgain_def)
  show ?thesis
    using untouched_node_gets_no_hook
      [of allowAll "atParent\<lparr>rt_nextLocation := Some toParentAgain\<rparr>" toParentAgain Changed
          atParentAgain parentSource parentNode]
      at_parent_again match_parent_again p n u e
    by simp
qed

end
